theory Spec2Isabelle
  imports Complex_Main "HOL-Library.Word"
begin

unbundle bit_operations_syntax

text \<open>
  A model of the PNG writer of the image generator server: \<open>generatePNG\<close> with its
  helpers \<open>deflateData\<close>, \<open>crc32\<close> and \<open>adler32\<close>, the colour parser \<open>hexToRgb\<close>, and
  the request handler \<open>handleGenerateImage\<close> with its argument validation. Each source
  function is a definition of the same name; its loops are recursive functions over the
  loop variables; a thrown exception is a result \<open>Inl\<close>. \<open>generatePNG\<close> is modelled
  twice: on dimensions that are non-negative integers, and, as \<open>generatePNG_number\<close>, on
  arbitrary JavaScript numbers, which is what the handler calls; the two agree on the
  integers. The definitions come first, then the formats as the specification words them,
  then the proofs: closed forms of the loops, the checksums, the chunks and the file, and
  with them the properties C1 to C10.
\<close>

section \<open>Buffers and the Node.js primitives used by the encoder\<close>

text \<open>
  A Node.js \<open>Buffer\<close> is a sequence of bytes. Integer-valued JavaScript numbers are
  modelled as \<open>int\<close> (they stay far below \<open>2 ^ 53\<close> in this program, where double
  arithmetic on integers is exact); the 32-bit bitwise operators are modelled on
  \<open>32 word\<close> and read back signed (\<open>|\<close>, \<open><<\<close>, \<open>^\<close>) or unsigned (\<open>>>>\<close>).
  The only exception the buffer primitives raise is a \<open>RangeError\<close>.
\<close>

type_synonym byte = "8 word"
type_synonym buffer = "byte list"

datatype error = RangeError

text \<open>
  \<open>buffer.constants.MAX_LENGTH\<close> of the host (\<open>2 ^ 53 - 1\<close> on current 64-bit Node.js,
  smaller on older releases). The results below only use that it is at least the size of
  the largest raster, \<open>4096 * (1 + 4096 * 3)\<close>.
\<close>

definition kMaxLength :: nat where
  "kMaxLength = 2 ^ 53 - 1"

definition Buffer_alloc :: "nat \<Rightarrow> error + buffer" where
  "Buffer_alloc n = (if kMaxLength < n then Inl RangeError else Inr (replicate n 0))"

text \<open>\<open>Buffer.from(string)\<close>: the UTF-8 bytes of a string of code points below 256.\<close>

definition utf8 :: "char \<Rightarrow> buffer" where
  "utf8 c =
     (let n = (of_char c :: nat)
      in if n < 128 then [word_of_nat n]
         else [word_of_nat (192 + n div 64), word_of_nat (128 + n mod 64)])"

definition Buffer_from :: "string \<Rightarrow> buffer" where
  "Buffer_from s = concat (map utf8 s)"

text \<open>
  \<open>buf.writeUInt32BE(value, offset)\<close>, \<open>buf.writeUInt16LE(value, offset)\<close> and
  \<open>buf.writeUInt8(value, offset)\<close> throw a \<open>RangeError\<close> when the value is outside the
  unsigned range or the bytes do not fit at the offset; otherwise they store the bytes.
\<close>

definition writeUInt32BE :: "int \<Rightarrow> nat \<Rightarrow> buffer \<Rightarrow> error + buffer" where
  "writeUInt32BE v off buf =
     (if v < 0 \<or> 0xFFFFFFFF < v \<or> length buf < off + 4 then Inl RangeError
      else Inr (buf[off := word_of_int (v div 16777216),
                    off + 1 := word_of_int (v div 65536),
                    off + 2 := word_of_int (v div 256),
                    off + 3 := word_of_int v]))"

definition writeUInt16LE :: "int \<Rightarrow> nat \<Rightarrow> buffer \<Rightarrow> error + buffer" where
  "writeUInt16LE v off buf =
     (if v < 0 \<or> 0xFFFF < v \<or> length buf < off + 2 then Inl RangeError
      else Inr (buf[off := word_of_int v, off + 1 := word_of_int (v div 256)]))"

definition writeUInt8 :: "int \<Rightarrow> nat \<Rightarrow> buffer \<Rightarrow> error + buffer" where
  "writeUInt8 v off buf =
     (if v < 0 \<or> 0xFF < v \<or> length buf < off + 1 then Inl RangeError
      else Inr (buf[off := word_of_int v]))"

text \<open>\<open>buf.subarray(start, end)\<close> for \<open>0 \<le> start\<close> and \<open>end \<le> buf.length\<close>.\<close>

definition subarray :: "buffer \<Rightarrow> nat \<Rightarrow> nat \<Rightarrow> buffer" where
  "subarray buf start end = take (end - start) (drop start buf)"

text \<open>
  Reading \<open>buf[i]\<close> gives \<open>undefined\<close> out of range, and storing \<open>undefined\<close> into a
  buffer stores 0. A store \<open>buf[i] = v\<close> out of range is ignored, as \<open>buf[i := v]\<close> is.
\<close>

definition read_byte :: "buffer \<Rightarrow> nat \<Rightarrow> byte" where
  "read_byte buf i = (if i < length buf then buf ! i else 0)"


section \<open>Checksums\<close>

subsection \<open>adler32\<close>

definition MOD_ADLER :: nat where
  "MOD_ADLER = 65521"

text \<open>The loop of \<open>adler32\<close> over \<open>data[0], data[1], ...\<close> with the running sums \<open>a\<close>, \<open>b\<close>.\<close>

fun adler32_loop :: "nat \<Rightarrow> nat \<Rightarrow> buffer \<Rightarrow> nat \<times> nat" where
  "adler32_loop a b [] = (a, b)"
| "adler32_loop a b (d # data) =
     (let a' = (a + unat d) mod MOD_ADLER;
          b' = (b + a') mod MOD_ADLER
      in adler32_loop a' b' data)"

declare adler32_loop.simps [simp del]

text \<open>
  \<open>return (b << 16) | a\<close>: both operators work on 32-bit integers and give a
  \<^emph>\<open>signed\<close> 32-bit result.
\<close>

definition adler32 :: "buffer \<Rightarrow> int" where
  "adler32 data =
     (case adler32_loop 1 0 data of
        (a, b) \<Rightarrow> sint ((push_bit 16 (word_of_nat b) OR word_of_nat a) :: 32 word))"

subsection \<open>crc32\<close>

text \<open>One round of the inner loop that builds a table entry.\<close>

definition crc_step :: "32 word \<Rightarrow> 32 word" where
  "crc_step c = (if c AND 1 \<noteq> 0 then 0xEDB88320 XOR drop_bit 1 c else drop_bit 1 c)"

definition crcTable :: "32 word list" where
  "crcTable = map (\<lambda>i. (crc_step ^^ 8) (word_of_nat i)) [0..<256]"

fun crc32_loop :: "32 word \<Rightarrow> buffer \<Rightarrow> 32 word" where
  "crc32_loop crc [] = crc"
| "crc32_loop crc (d # data) =
     crc32_loop (crcTable ! unat ((crc XOR ucast d) AND 0xFF) XOR drop_bit 8 crc) data"

text \<open>\<open>return (crc ^ 0xFFFFFFFF) >>> 0\<close>: the unsigned reading of the 32 bits.\<close>

definition crc32 :: "buffer \<Rightarrow> int" where
  "crc32 data = uint (crc32_loop 0xFFFFFFFF data XOR 0xFFFFFFFF)"


section \<open>deflateData: the stored-block stream wrapper\<close>

definition maxBlockSize :: nat where
  "maxBlockSize = 65535"

text \<open>
  The \<open>for\<close> loop of \<open>deflateData\<close>: \<open>i\<close> is the loop variable and \<open>blocks\<close> the array
  that \<open>blocks.push(blockHeader, lengthBytes, blockData)\<close> extends.
\<close>

function deflate_loop :: "nat \<Rightarrow> buffer \<Rightarrow> buffer list \<Rightarrow> error + buffer list" where
  "deflate_loop i data blocks =
     (if i < length data then
        (let blockData = subarray data i (min (i + maxBlockSize) (length data));
             isLast = (length data \<le> i + maxBlockSize);
             blockHeader = [if isLast then 0x01 else 0x00];
             len = int (length blockData);
             nlen = 0xFFFF - len
         in case Buffer_alloc 4 of
              Inl e \<Rightarrow> Inl e
            | Inr lengthBytes0 \<Rightarrow>
                (case writeUInt16LE len 0 lengthBytes0 of
                   Inl e \<Rightarrow> Inl e
                 | Inr lengthBytes1 \<Rightarrow>
                     (case writeUInt16LE nlen 2 lengthBytes1 of
                        Inl e \<Rightarrow> Inl e
                      | Inr lengthBytes \<Rightarrow>
                          deflate_loop (i + maxBlockSize) data
                            (blocks @ [blockHeader, lengthBytes, blockData]))))
      else Inr blocks)"
  by pat_completeness auto
termination
  by (relation "measure (\<lambda>(i, data, blocks). length data - i)")
     (auto simp: maxBlockSize_def)

declare deflate_loop.simps [simp del]

definition deflateData :: "buffer \<Rightarrow> error + buffer" where
  "deflateData data =
     (case deflate_loop 0 data [] of
        Inl e \<Rightarrow> Inl e
      | Inr blocks \<Rightarrow>
          (let cmf = 0x78;
               flg = 0x01;
               header = [cmf, flg];
               blockData = concat blocks;
               adler = adler32 data
           in case Buffer_alloc 4 of
                Inl e \<Rightarrow> Inl e
              | Inr adlerBytes0 \<Rightarrow>
                  (case writeUInt32BE adler 0 adlerBytes0 of
                     Inl e \<Rightarrow> Inl e
                   | Inr adlerBytes \<Rightarrow> Inr (concat [header, blockData, adlerBytes]))))"

section \<open>Colour parsing\<close>

text \<open>
  Strings are sequences of code units below 256. \<open>parseInt(s, 16)\<close> skips leading white
  space, reads an optional sign and an optional \<open>0x\<close> prefix, and then the longest run of
  hexadecimal digits; without a digit the result is \<open>NaN\<close>, modelled as \<open>None\<close>.
\<close>

definition isWhiteSpace :: "char \<Rightarrow> bool" where
  "isWhiteSpace c \<longleftrightarrow> (of_char c :: nat) \<in> {9, 10, 11, 12, 13, 32, 160}"

definition hexDigit :: "char \<Rightarrow> nat option" where
  "hexDigit c =
     (let n = (of_char c :: nat)
      in if 48 \<le> n \<and> n \<le> 57 then Some (n - 48)
         else if 97 \<le> n \<and> n \<le> 102 then Some (n - 87)
         else if 65 \<le> n \<and> n \<le> 70 then Some (n - 55)
         else None)"

fun hexValue :: "nat \<Rightarrow> string \<Rightarrow> nat" where
  "hexValue acc [] = acc"
| "hexValue acc (c # cs) =
     (case hexDigit c of None \<Rightarrow> acc | Some d \<Rightarrow> hexValue (16 * acc + d) cs)"

definition parseInt16 :: "string \<Rightarrow> int option" where
  "parseInt16 str =
     (let s = dropWhile isWhiteSpace str;
          sign = (if s \<noteq> [] \<and> hd s = CHR ''-'' then - 1 else 1);
          s1 = (if s \<noteq> [] \<and> (hd s = CHR ''+'' \<or> hd s = CHR ''-'') then tl s else s);
          s2 = (if 2 \<le> length s1 \<and> (take 2 s1 = ''0x'' \<or> take 2 s1 = ''0X'')
                then drop 2 s1 else s1)
      in if s2 = [] \<or> hexDigit (hd s2) = None then None
         else Some (sign * int (hexValue 0 s2)))"

definition substr :: "string \<Rightarrow> nat \<Rightarrow> nat \<Rightarrow> string" where
  "substr s start n = take n (drop start s)"

text \<open>
  \<open>hexToRgb\<close>: \<open>hex.replace('#', '')\<close> removes the first \<open>#\<close>; a three-character string has
  each character doubled; the three channels are parsed from two characters each.
\<close>

definition hexToRgb :: "string \<Rightarrow> int option \<times> int option \<times> int option" where
  "hexToRgb hex0 =
     (let hex1 = remove1 CHR ''#'' hex0;
          hex = (if length hex1 = 3
                 then [hex1 ! 0, hex1 ! 0, hex1 ! 1, hex1 ! 1, hex1 ! 2, hex1 ! 2]
                 else hex1);
          r = parseInt16 (substr hex 0 2);
          g = parseInt16 (substr hex 2 2);
          b = parseInt16 (substr hex 4 2)
      in (r, g, b))"

text \<open>The regular expression \<open>/^#([0-9A-Fa-f]{3}|[0-9A-Fa-f]{6})$/\<close>.\<close>

definition isValidColor :: "string \<Rightarrow> bool" where
  "isValidColor color \<longleftrightarrow>
     (case color of
        [] \<Rightarrow> False
      | c # ds \<Rightarrow> c = CHR ''#'' \<and> (length ds = 3 \<or> length ds = 6) \<and>
                  list_all (\<lambda>d. hexDigit d \<noteq> None) ds)"

text \<open>Storing a number into a buffer element: \<open>NaN\<close> gives 0, an integer its low 8 bits.\<close>

definition toUint8 :: "int option \<Rightarrow> byte" where
  "toUint8 v = (case v of None \<Rightarrow> 0 | Some n \<Rightarrow> word_of_int n)"


section \<open>generatePNG\<close>

definition signature :: buffer where
  "signature = [0x89, 0x50, 0x4E, 0x47, 0x0D, 0x0A, 0x1A, 0x0A]"

text \<open>The 13 bytes of \<open>ihdrData\<close>, written field by field.\<close>

definition ihdrData :: "nat \<Rightarrow> nat \<Rightarrow> error + buffer" where
  "ihdrData width height =
     (case Buffer_alloc 13 of Inl e \<Rightarrow> Inl e | Inr d0 \<Rightarrow>
      case writeUInt32BE (int width) 0 d0 of Inl e \<Rightarrow> Inl e | Inr d1 \<Rightarrow>
      case writeUInt32BE (int height) 4 d1 of Inl e \<Rightarrow> Inl e | Inr d2 \<Rightarrow>
      case writeUInt8 8 8 d2 of Inl e \<Rightarrow> Inl e | Inr d3 \<Rightarrow>
      case writeUInt8 2 9 d3 of Inl e \<Rightarrow> Inl e | Inr d4 \<Rightarrow>
      case writeUInt8 0 10 d4 of Inl e \<Rightarrow> Inl e | Inr d5 \<Rightarrow>
      case writeUInt8 0 11 d5 of Inl e \<Rightarrow> Inl e | Inr d6 \<Rightarrow>
      writeUInt8 0 12 d6)"

definition ihdr :: "buffer \<Rightarrow> error + buffer" where
  "ihdr hdata =
     (let ihdrCrc = crc32 (concat [Buffer_from ''IHDR'', hdata])
      in case Buffer_alloc 4 of Inl e \<Rightarrow> Inl e | Inr z \<Rightarrow>
         (let ihdr0 = concat [[0x00, 0x00, 0x00, 0x0D], Buffer_from ''IHDR'', hdata, z]
          in writeUInt32BE ihdrCrc (length ihdr0 - 4) ihdr0))"

text \<open>The loop that fills \<open>pixelData\<close> (here \<open>pd\<close>) three bytes at a time.\<close>

function pixel_loop ::
  "nat \<Rightarrow> int option \<Rightarrow> int option \<Rightarrow> int option \<Rightarrow> buffer \<Rightarrow> buffer" where
  "pixel_loop i r g b pd =
     (if i < length pd
      then pixel_loop (i + 3) r g b
             (pd[i := toUint8 r, i + 1 := toUint8 g, i + 2 := toUint8 b])
      else pd)"
  by pat_completeness auto
termination
  by (relation "measure (\<lambda>(i, r, g, b, pd). length pd - i)") auto

declare pixel_loop.simps [simp del]

definition pixelData ::
  "nat \<Rightarrow> nat \<Rightarrow> int option \<Rightarrow> int option \<Rightarrow> int option \<Rightarrow> error + buffer" where
  "pixelData width height r g b =
     (case Buffer_alloc (width * height * 3) of
        Inl e \<Rightarrow> Inl e
      | Inr pd \<Rightarrow> Inr (pixel_loop 0 r g b pd))"

text \<open>
  The nested loops that copy each row behind its filter byte. The state is the write
  position \<open>pos\<close> and the buffer \<open>imageData\<close> (here \<open>img\<close>); \<open>pd\<close> is \<open>pixelData\<close>.
\<close>

function row_loop :: "nat \<Rightarrow> nat \<Rightarrow> nat \<Rightarrow> buffer \<Rightarrow> nat \<times> buffer \<Rightarrow> nat \<times> buffer" where
  "row_loop x y width pd (pos, img) =
     (if x < width * 3
      then row_loop (x + 1) y width pd
             (pos + 1, img[pos := read_byte pd (y * width * 3 + x)])
      else (pos, img))"
  by pat_completeness auto
termination
  by (relation "measure (\<lambda>(x, y, width, pd, st). width * 3 - x)") auto

declare row_loop.simps [simp del]

function scanline_loop ::
  "nat \<Rightarrow> nat \<Rightarrow> nat \<Rightarrow> buffer \<Rightarrow> nat \<times> buffer \<Rightarrow> nat \<times> buffer" where
  "scanline_loop y width height pd (pos, img) =
     (if y < height
      then scanline_loop (y + 1) width height pd
             (row_loop 0 y width pd (pos + 1, img[pos := 0]))
      else (pos, img))"
  by pat_completeness auto
termination
  by (relation "measure (\<lambda>(y, width, height, pd, st). height - y)") auto

declare scanline_loop.simps [simp del]

definition imageData ::
  "nat \<Rightarrow> nat \<Rightarrow> int option \<Rightarrow> int option \<Rightarrow> int option \<Rightarrow> error + buffer" where
  "imageData width height r g b =
     (case pixelData width height r g b of
        Inl e \<Rightarrow> Inl e
      | Inr pd \<Rightarrow>
          (case Buffer_alloc (height + length pd) of
             Inl e \<Rightarrow> Inl e
           | Inr img \<Rightarrow> Inr (snd (scanline_loop 0 width height pd (0, img)))))"

definition idat :: "buffer \<Rightarrow> error + buffer" where
  "idat compressedData =
     (let idatCrc = crc32 (concat [Buffer_from ''IDAT'', compressedData])
      in case Buffer_alloc 4 of Inl e \<Rightarrow> Inl e | Inr z0 \<Rightarrow>
         case Buffer_alloc 4 of Inl e \<Rightarrow> Inl e | Inr z1 \<Rightarrow>
         (let idat0 = concat [z0, Buffer_from ''IDAT'', compressedData, z1]
          in case writeUInt32BE (int (length compressedData)) 0 idat0 of
               Inl e \<Rightarrow> Inl e
             | Inr idat1 \<Rightarrow> writeUInt32BE idatCrc (length idat1 - 4) idat1))"

definition iend :: "error + buffer" where
  "iend =
     (let iendCrc = crc32 (Buffer_from ''IEND'')
      in case Buffer_alloc 4 of Inl e \<Rightarrow> Inl e | Inr z \<Rightarrow>
         (let iend0 = concat [[0x00, 0x00, 0x00, 0x00], Buffer_from ''IEND'', z]
          in writeUInt32BE iendCrc (length iend0 - 4) iend0))"

definition generatePNG :: "nat \<Rightarrow> nat \<Rightarrow> string \<Rightarrow> error + buffer" where
  "generatePNG width height color =
     (case hexToRgb color of (r, g, b) \<Rightarrow>
      case ihdrData width height of Inl e \<Rightarrow> Inl e | Inr hdata \<Rightarrow>
      case ihdr hdata of Inl e \<Rightarrow> Inl e | Inr ih \<Rightarrow>
      case imageData width height r g b of Inl e \<Rightarrow> Inl e | Inr img \<Rightarrow>
      case deflateData img of Inl e \<Rightarrow> Inl e | Inr compressedData \<Rightarrow>
      case idat compressedData of Inl e \<Rightarrow> Inl e | Inr idt \<Rightarrow>
      case iend of Inl e \<Rightarrow> Inl e | Inr ie \<Rightarrow>
      Inr (concat [signature, ih, idt, ie]))"

section \<open>Argument validation of the request handler\<close>

text \<open>
  The arguments of a tool call are a JSON value. A JavaScript number is a double: \<open>NaN\<close>,
  an infinity, or a finite value, which is a rational number. The comparisons \<open>> 0\<close> and
  \<open><= 4096\<close> of doubles are exact, so they are the comparisons of these rationals (not
  every rational is a double; what holds for every rational holds for every double).
\<close>

datatype number = NaN | PosInfinity | NegInfinity | Finite rat

datatype jsvalue =
    JUndefined
  | JNull
  | JBoolean bool
  | JNumber number
  | JString string
  | JArray "jsvalue list"
  | JObject "(string \<times> jsvalue) list"

fun typeof :: "jsvalue \<Rightarrow> string" where
  "typeof JUndefined = ''undefined''"
| "typeof JNull = ''object''"
| "typeof (JBoolean b) = ''boolean''"
| "typeof (JNumber n) = ''number''"
| "typeof (JString s) = ''string''"
| "typeof (JArray xs) = ''object''"
| "typeof (JObject fields) = ''object''"

text \<open>Property access \<open>args.name\<close>; a missing property is \<open>undefined\<close>.\<close>

fun get_prop :: "jsvalue \<Rightarrow> string \<Rightarrow> jsvalue" where
  "get_prop (JObject fields) name = (case map_of fields name of None \<Rightarrow> JUndefined | Some v \<Rightarrow> v)"
| "get_prop v name = JUndefined"

text \<open>
  \<open>v > q\<close> and \<open>v <= q\<close> for a value \<open>v\<close> that the preceding \<open>typeof\<close> test has shown to
  be a number; every comparison with \<open>NaN\<close> is false.
\<close>

fun greater_than :: "jsvalue \<Rightarrow> rat \<Rightarrow> bool" where
  "greater_than (JNumber (Finite x)) q = (q < x)"
| "greater_than (JNumber PosInfinity) q = True"
| "greater_than v q = False"

fun at_most :: "jsvalue \<Rightarrow> rat \<Rightarrow> bool" where
  "at_most (JNumber (Finite x)) q = (x \<le> q)"
| "at_most (JNumber NegInfinity) q = True"
| "at_most v q = False"

definition isValidGenerateImageArgs :: "jsvalue \<Rightarrow> bool" where
  "isValidGenerateImageArgs args \<longleftrightarrow>
     typeof args = ''object'' \<and>
     args \<noteq> JNull \<and>
     typeof (get_prop args ''width'') = ''number'' \<and>
     typeof (get_prop args ''height'') = ''number'' \<and>
     typeof (get_prop args ''color'') = ''string'' \<and>
     typeof (get_prop args ''filepath'') = ''string'' \<and>
     greater_than (get_prop args ''width'') 0 \<and>
     greater_than (get_prop args ''height'') 0 \<and>
     at_most (get_prop args ''width'') 4096 \<and>
     at_most (get_prop args ''height'') 4096"

fun number_of :: "jsvalue \<Rightarrow> number" where
  "number_of (JNumber n) = n"
| "number_of v = NaN"

fun string_of :: "jsvalue \<Rightarrow> string" where
  "string_of (JString s) = s"
| "string_of v = []"

datatype ErrorCode = InvalidParams | InternalError


section \<open>generatePNG on arbitrary numbers\<close>

text \<open>
  The request handler passes \<open>width\<close> and \<open>height\<close> to \<open>generatePNG\<close> as it receives
  them, so they may be fractional. The finite doubles are the rationals \<open>m * 2 ^ e\<close> with
  \<open>|m| < 2 ^ 53\<close> and \<open>-1074 \<le> e \<le> 971\<close>. An arithmetic operation gives the double
  nearest to the exact result, \<open>fl\<close>; which of two equally near doubles is taken is left
  open, and nothing below depends on it. Results beyond the largest double overflow to an
  infinity. The sign of zero is not modelled: \<open>generatePNG\<close> treats \<open>-0\<close> as \<open>0\<close>
  everywhere. On non-negative integers \<open>generatePNG_number\<close> is \<open>generatePNG\<close> (lemma
  \<open>generatePNG_number_nat\<close> below).
\<close>

definition doubles :: "rat set" where
  "doubles = (\<lambda>(m, a, b). of_int m * 2 ^ a / 2 ^ b) `
               ({- (2 ^ 53) <..< 2 ^ 53} \<times> {..971} \<times> {..1074})"

definition fl :: "rat \<Rightarrow> rat" where
  "fl x = arg_min_on (\<lambda>r. \<bar>r - x\<bar>) doubles"

definition rounded :: "rat \<Rightarrow> number" where
  "rounded x =
     (if 2 ^ 1024 - 2 ^ 970 \<le> x then PosInfinity
      else if x \<le> - (2 ^ 1024 - 2 ^ 970) then NegInfinity
      else Finite (fl x))"

fun js_sign :: "number \<Rightarrow> int" where
  "js_sign (Finite q) = (if q < 0 then - 1 else if q = 0 then 0 else 1)"
| "js_sign PosInfinity = 1"
| "js_sign NegInfinity = - 1"
| "js_sign NaN = 0"

text \<open>\<open>x * y\<close>, \<open>x + y\<close> and \<open>x < y\<close> on numbers.\<close>

fun js_times :: "number \<Rightarrow> number \<Rightarrow> number" where
  "js_times (Finite a) (Finite b) = rounded (a * b)"
| "js_times NaN y = NaN"
| "js_times x NaN = NaN"
| "js_times x y =
     (if js_sign x * js_sign y = 0 then NaN
      else if 0 < js_sign x * js_sign y then PosInfinity else NegInfinity)"

fun js_plus :: "number \<Rightarrow> number \<Rightarrow> number" where
  "js_plus (Finite a) (Finite b) = rounded (a + b)"
| "js_plus NaN y = NaN"
| "js_plus x NaN = NaN"
| "js_plus PosInfinity NegInfinity = NaN"
| "js_plus NegInfinity PosInfinity = NaN"
| "js_plus PosInfinity y = PosInfinity"
| "js_plus x PosInfinity = PosInfinity"
| "js_plus NegInfinity y = NegInfinity"
| "js_plus x NegInfinity = NegInfinity"

declare js_times.simps(1) [simp del] js_plus.simps(1) [simp del]

fun js_less :: "number \<Rightarrow> number \<Rightarrow> bool" where
  "js_less (Finite a) (Finite b) = (a < b)"
| "js_less NaN y = False"
| "js_less x NaN = False"
| "js_less PosInfinity y = False"
| "js_less x NegInfinity = False"
| "js_less x y = True"

text \<open>
  \<open>Buffer.alloc(size)\<close> rejects a size that is \<open>NaN\<close>, negative or above the maximal
  length, and otherwise allocates the integer part of \<open>size\<close>.
\<close>

definition Buffer_alloc_number :: "number \<Rightarrow> error + buffer" where
  "Buffer_alloc_number n =
     (case n of
        Finite q \<Rightarrow>
          if q < 0 \<or> of_nat kMaxLength < q then Inl RangeError
          else Inr (replicate (nat \<lfloor>q\<rfloor>) 0)
      | _ \<Rightarrow> Inl RangeError)"

text \<open>
  \<open>buf.writeUInt32BE(value, offset)\<close> compares \<open>value\<close> with the bounds, which \<open>NaN\<close>
  passes, and then stores the bytes of the integer part (0 for \<open>NaN\<close>).
\<close>

definition writeUInt32BE_number :: "number \<Rightarrow> nat \<Rightarrow> buffer \<Rightarrow> error + buffer" where
  "writeUInt32BE_number v off buf =
     (case v of
        Finite q \<Rightarrow>
          if q < 0 \<or> 0xFFFFFFFF < q then Inl RangeError else writeUInt32BE \<lfloor>q\<rfloor> off buf
      | NaN \<Rightarrow> writeUInt32BE 0 off buf
      | _ \<Rightarrow> Inl RangeError)"

text \<open>
  \<open>buf[i]\<close> for a number \<open>i\<close>: the element when \<open>i\<close> is an integer in range, otherwise
  \<open>undefined\<close>, which is stored as 0.
\<close>

definition read_number :: "buffer \<Rightarrow> number \<Rightarrow> byte" where
  "read_number buf i =
     (case i of
        Finite q \<Rightarrow>
          if q = of_int \<lfloor>q\<rfloor> \<and> 0 \<le> q \<and> q < of_nat (length buf) then buf ! nat \<lfloor>q\<rfloor> else 0
      | _ \<Rightarrow> 0)"

definition ihdrData_number :: "number \<Rightarrow> number \<Rightarrow> error + buffer" where
  "ihdrData_number width height =
     (case Buffer_alloc 13 of Inl e \<Rightarrow> Inl e | Inr d0 \<Rightarrow>
      case writeUInt32BE_number width 0 d0 of Inl e \<Rightarrow> Inl e | Inr d1 \<Rightarrow>
      case writeUInt32BE_number height 4 d1 of Inl e \<Rightarrow> Inl e | Inr d2 \<Rightarrow>
      case writeUInt8 8 8 d2 of Inl e \<Rightarrow> Inl e | Inr d3 \<Rightarrow>
      case writeUInt8 2 9 d3 of Inl e \<Rightarrow> Inl e | Inr d4 \<Rightarrow>
      case writeUInt8 0 10 d4 of Inl e \<Rightarrow> Inl e | Inr d5 \<Rightarrow>
      case writeUInt8 0 11 d5 of Inl e \<Rightarrow> Inl e | Inr d6 \<Rightarrow>
      writeUInt8 0 12 d6)"

definition pixelData_number ::
  "number \<Rightarrow> number \<Rightarrow> int option \<Rightarrow> int option \<Rightarrow> int option \<Rightarrow> error + buffer" where
  "pixelData_number width height r g b =
     (case Buffer_alloc_number (js_times (js_times width height) (Finite 3)) of
        Inl e \<Rightarrow> Inl e
      | Inr pd \<Rightarrow> Inr (pixel_loop 0 r g b pd))"

text \<open>
  The two copying loops with the counters \<open>x\<close> and \<open>y\<close> as numbers. A loop whose bound is
  never reached does not return: the result is \<open>None\<close>.
\<close>

partial_function (option) row_loop_number ::
  "number \<Rightarrow> number \<Rightarrow> number \<Rightarrow> buffer \<Rightarrow> nat \<times> buffer \<Rightarrow> (nat \<times> buffer) option" where
  "row_loop_number x y width pd st =
     (if js_less x (js_times width (Finite 3))
      then row_loop_number (js_plus x (Finite 1)) y width pd
             (fst st + 1,
              (snd st)[fst st := read_number pd (js_plus (js_times (js_times y width) (Finite 3)) x)])
      else Some st)"

partial_function (option) scanline_loop_number ::
  "number \<Rightarrow> number \<Rightarrow> number \<Rightarrow> buffer \<Rightarrow> nat \<times> buffer \<Rightarrow> (nat \<times> buffer) option" where
  "scanline_loop_number y width height pd st =
     (if js_less y height
      then Option.bind
             (row_loop_number (Finite 0) y width pd (fst st + 1, (snd st)[fst st := 0]))
             (scanline_loop_number (js_plus y (Finite 1)) width height pd)
      else Some st)"

definition imageData_number ::
  "number \<Rightarrow> number \<Rightarrow> int option \<Rightarrow> int option \<Rightarrow> int option \<Rightarrow> (error + buffer) option" where
  "imageData_number width height r g b =
     (case pixelData_number width height r g b of
        Inl e \<Rightarrow> Some (Inl e)
      | Inr pd \<Rightarrow>
          (case Buffer_alloc_number (js_plus height (Finite (of_nat (length pd)))) of
             Inl e \<Rightarrow> Some (Inl e)
           | Inr img \<Rightarrow>
               map_option (\<lambda>st. Inr (snd st))
                 (scanline_loop_number (Finite 0) width height pd (0, img))))"

definition generatePNG_number :: "number \<Rightarrow> number \<Rightarrow> string \<Rightarrow> (error + buffer) option" where
  "generatePNG_number width height color =
     (case hexToRgb color of (r, g, b) \<Rightarrow>
      case ihdrData_number width height of Inl e \<Rightarrow> Some (Inl e) | Inr hdata \<Rightarrow>
      case ihdr hdata of Inl e \<Rightarrow> Some (Inl e) | Inr ih \<Rightarrow>
      case imageData_number width height r g b of
        None \<Rightarrow> None
      | Some (Inl e) \<Rightarrow> Some (Inl e)
      | Some (Inr img) \<Rightarrow>
          Some (case deflateData img of Inl e \<Rightarrow> Inl e | Inr compressedData \<Rightarrow>
                case idat compressedData of Inl e \<Rightarrow> Inl e | Inr idt \<Rightarrow>
                case iend of Inl e \<Rightarrow> Inl e | Inr ie \<Rightarrow>
                Inr (concat [signature, ih, idt, ie])))"

section \<open>The request handler\<close>

text \<open>
  \<open>handleGenerateImage\<close>. Its own failures are \<open>McpError\<close>s with an error code. In the
  \<open>try\<close> block the directory is created (errors ignored) and the file is written; whether
  \<open>writeFileSync(filepath, pngBuffer)\<close> succeeds is decided by the file system, which is
  the parameter \<open>writeFileSync\<close>. Every exception in the \<open>try\<close> block is rethrown with code
  \<open>InternalError\<close>. On success the result is the response, whose text reports \<open>width\<close>,
  \<open>height\<close>, \<open>color\<close> and \<open>filepath\<close>, together with the file that was written: its
  path and its contents, the bytes of \<open>generatePNG\<close>. The result is \<open>None\<close> when
  \<open>generatePNG\<close> does not return.
\<close>

datatype response = Saved number number string string

definition handleGenerateImage ::
  "(string \<Rightarrow> buffer \<Rightarrow> bool) \<Rightarrow> jsvalue \<Rightarrow> (ErrorCode + response \<times> string \<times> buffer) option"
  where
  "handleGenerateImage writeFileSync args =
     (if \<not> isValidGenerateImageArgs args then Some (Inl InvalidParams)
      else
        (let width = number_of (get_prop args ''width'');
             height = number_of (get_prop args ''height'');
             color = string_of (get_prop args ''color'');
             filepath = string_of (get_prop args ''filepath'')
         in if \<not> isValidColor color then Some (Inl InvalidParams)
            else
              (case generatePNG_number width height color of
                 None \<Rightarrow> None
               | Some (Inl e) \<Rightarrow> Some (Inl InternalError)
               | Some (Inr pngBuffer) \<Rightarrow>
                   if writeFileSync filepath pngBuffer
                   then Some (Inr (Saved width height color filepath, filepath, pngBuffer))
                   else Some (Inl InternalError))))"


section \<open>The formats as the specification words them\<close>

text \<open>Big-endian and little-endian encodings of unsigned integers, and the decoding.\<close>

definition u32be :: "int \<Rightarrow> buffer" where
  "u32be v = [word_of_int (v div 16777216), word_of_int (v div 65536),
              word_of_int (v div 256), word_of_int v]"

definition u16le :: "int \<Rightarrow> buffer" where
  "u16le v = [word_of_int v, word_of_int (v div 256)]"

definition decode_u32be :: "buffer \<Rightarrow> int" where
  "decode_u32be bs =
     uint (bs ! 0) * 16777216 + uint (bs ! 1) * 65536 + uint (bs ! 2) * 256 + uint (bs ! 3)"

text \<open>
  Adler-32 as specified: the sums \<open>a\<close> (from 1) and \<open>b\<close> (from 0), updated per byte, packed
  as \<open>(b << 16) | a\<close> into an unsigned 32-bit value.
\<close>

definition adler32_sums :: "nat \<times> nat \<Rightarrow> byte \<Rightarrow> nat \<times> nat" where
  "adler32_sums s d = ((fst s + unat d) mod 65521, (snd s + (fst s + unat d) mod 65521) mod 65521)"

definition adler32_spec :: "buffer \<Rightarrow> int" where
  "adler32_spec data =
     (let s = foldl adler32_sums (1, 0) data
      in uint ((push_bit 16 (word_of_nat (snd s)) OR word_of_nat (fst s)) :: 32 word))"

text \<open>
  CRC-32 as specified: reflected, polynomial \<open>0xEDB88320\<close>, register initialised to all
  ones, each byte folded in bit by bit, the register inverted at the end.
\<close>

definition crc32_shift :: "32 word \<Rightarrow> 32 word" where
  "crc32_shift c = (if bit c 0 then drop_bit 1 c XOR 0xEDB88320 else drop_bit 1 c)"

definition crc32_byte :: "32 word \<Rightarrow> byte \<Rightarrow> 32 word" where
  "crc32_byte c d = (crc32_shift ^^ 8) (c XOR ucast d)"

definition crc32_reference :: "buffer \<Rightarrow> int" where
  "crc32_reference data = uint (NOT (foldl crc32_byte (NOT 0) data))"

text \<open>A chunk: length of the payload, tag, payload, CRC-32 of tag and payload.\<close>

definition make_chunk :: "buffer \<Rightarrow> buffer \<Rightarrow> buffer" where
  "make_chunk tag payload =
     u32be (int (length payload)) @ tag @ payload @ u32be (crc32 (tag @ payload))"

text \<open>
  The stored-block stream: the input cut into pieces of at most 65535 bytes (one empty
  piece for the empty input), each behind its block header, the last one marked final.
\<close>

function split_blocks :: "buffer \<Rightarrow> buffer list" where
  "split_blocks data =
     (if length data \<le> 65535 then [data]
      else take 65535 data # split_blocks (drop 65535 data))"
  by pat_completeness auto
termination
  by (relation "measure length") auto

declare split_blocks.simps [simp del]

definition stored_block :: "bool \<Rightarrow> buffer \<Rightarrow> buffer" where
  "stored_block final bs =
     [if final then 1 else 0] @ u16le (int (length bs)) @ u16le (0xFFFF - int (length bs)) @ bs"

fun stored_blocks :: "buffer list \<Rightarrow> buffer" where
  "stored_blocks [] = []"
| "stored_blocks [bs] = stored_block True bs"
| "stored_blocks (bs # rest) = stored_block False bs @ stored_blocks rest"

definition stream_spec :: "buffer \<Rightarrow> buffer" where
  "stream_spec data = [0x78, 0x01] @ stored_blocks (split_blocks data) @ u32be (adler32_spec data)"

text \<open>A scanline: the filter byte 0 and \<open>width\<close> pixels; the buffer is \<open>height\<close> scanlines.\<close>

definition scanline :: "nat \<Rightarrow> byte \<Rightarrow> byte \<Rightarrow> byte \<Rightarrow> buffer" where
  "scanline width r g b = 0 # concat (replicate width [r, g, b])"

definition scanlines :: "nat \<Rightarrow> nat \<Rightarrow> byte \<Rightarrow> byte \<Rightarrow> byte \<Rightarrow> buffer" where
  "scanlines width height r g b = concat (replicate height (scanline width r g b))"


section \<open>The scanline buffer is built as rows of one filter byte and the pixels\<close>

lemma take_Suc_update: "i < length xs \<Longrightarrow> take (Suc i) (xs[i := a]) = take i xs @ [a]"
  by (simp add: take_Suc_conv_app_nth)

lemma take3_update:
  assumes "i + 2 < length xs"
  shows "take (i + 3) (xs[i := a, i + 1 := b, i + 2 := c]) = take i xs @ [a, b, c]"
proof -
  have "take (Suc (i + 2)) (xs[i := a, i + 1 := b, i + 2 := c])
          = take (i + 2) (xs[i := a, i + 1 := b]) @ [c]"
    using assms by (subst take_Suc_update) simp_all
  also have "take (i + 2) (xs[i := a, i + 1 := b]) = take (Suc (i + 1)) (xs[i := a, i + 1 := b])"
    by simp
  also have "\<dots> = take (i + 1) (xs[i := a]) @ [b]"
    using assms by (subst take_Suc_update) simp_all
  also have "take (i + 1) (xs[i := a]) = take i xs @ [a]"
    using assms take_Suc_update[of i xs a] by simp
  finally show ?thesis by (simp add: numeral_3_eq_3)
qed

lemma pixel_loop_closed:
  "length pd = 3 * n \<Longrightarrow> k \<le> n \<Longrightarrow>
   pixel_loop (3 * k) r g b pd =
     take (3 * k) pd @ concat (replicate (n - k) [toUint8 r, toUint8 g, toUint8 b])"
proof (induction "n - k" arbitrary: k pd)
  case 0
  then show ?case by (simp add: pixel_loop.simps)
next
  case (Suc m)
  let ?pd = "pd[3 * k := toUint8 r, 3 * k + 1 := toUint8 g, 3 * k + 2 := toUint8 b]"
  from Suc have lt: "k < n" and m: "m = n - Suc k" by simp_all
  have len: "length ?pd = 3 * n" using Suc.prems by simp
  have in_range: "3 * k + 2 < length pd" using lt Suc.prems by simp
  have "pixel_loop (3 * k) r g b pd = pixel_loop (3 * Suc k) r g b ?pd"
    using in_range by (subst pixel_loop.simps) (simp add: algebra_simps)
  also have "\<dots> = take (3 * Suc k) ?pd @ concat (replicate (n - Suc k) [toUint8 r, toUint8 g, toUint8 b])"
    using Suc.hyps(1)[OF m len] lt by simp
  also have "take (3 * Suc k) ?pd = take (3 * k) pd @ [toUint8 r, toUint8 g, toUint8 b]"
    using take3_update[OF in_range] by (simp add: algebra_simps)
  finally have step: "pixel_loop (3 * k) r g b pd =
      (take (3 * k) pd @ [toUint8 r, toUint8 g, toUint8 b]) @
      concat (replicate (n - Suc k) [toUint8 r, toUint8 g, toUint8 b])" .
  have "n - k = Suc (n - Suc k)" using lt by simp
  then show ?case using step by simp
qed

lemma concat_replicate_add:
  "concat (replicate (a + b) xs) = concat (replicate a xs) @ concat (replicate b xs)"
  by (simp add: replicate_add)

lemma length_concat_replicate: "length (concat (replicate a xs)) = a * length xs"
  by (induction a) simp_all

lemma take_concat_replicate:
  "take (a * length xs) (concat (replicate (a + b) xs)) = concat (replicate a xs)"
  by (simp add: concat_replicate_add length_concat_replicate)

lemma drop_concat_replicate:
  "drop (a * length xs) (concat (replicate (a + b) xs)) = concat (replicate b xs)"
  by (simp add: concat_replicate_add length_concat_replicate)

lemma row_loop_closed:
  "x \<le> 3 * w \<Longrightarrow> pos + (3 * w - x) \<le> length img \<Longrightarrow>
   y * w * 3 + 3 * w \<le> length pd \<Longrightarrow>
   row_loop x y w pd (pos, img) =
     (pos + (3 * w - x),
      take pos img @ take (3 * w - x) (drop (y * w * 3 + x) pd) @ drop (pos + (3 * w - x)) img)"
proof (induction "3 * w - x" arbitrary: x pos img)
  case 0
  then show ?case by (simp add: row_loop.simps)
next
  case (Suc m)
  let ?k = "y * w * 3 + x"
  let ?img = "img[pos := read_byte pd ?k]"
  from Suc have lt: "x < 3 * w" and m: "m = 3 * w - Suc x" by simp_all
  have k: "?k < length pd" using lt Suc.prems by simp
  have pos: "pos < length img" using lt Suc.prems by simp
  have rd: "read_byte pd ?k = pd ! ?k" using k by (simp add: read_byte_def)
  have cnt: "3 * w - x = Suc (3 * w - Suc x)" using lt by simp
  have "row_loop x y w pd (pos, img) = row_loop (Suc x) y w pd (Suc pos, ?img)"
    using lt by (subst row_loop.simps) (simp add: algebra_simps)
  also have "\<dots> = (Suc pos + (3 * w - Suc x),
      take (Suc pos) ?img @ take (3 * w - Suc x) (drop (y * w * 3 + Suc x) pd)
        @ drop (Suc pos + (3 * w - Suc x)) ?img)"
    using Suc.hyps(1)[OF m, of "Suc pos" ?img] lt Suc.prems by simp
  also have "take (Suc pos) ?img = take pos img @ [pd ! ?k]"
    using pos rd by (simp add: take_Suc_update)
  also have "drop (Suc pos + (3 * w - Suc x)) ?img = drop (pos + (3 * w - x)) img"
    using lt by (simp add: cnt)
  finally have step: "row_loop x y w pd (pos, img) =
     (Suc pos + (3 * w - Suc x),
      (take pos img @ [pd ! ?k]) @ take (3 * w - Suc x) (drop (y * w * 3 + Suc x) pd)
        @ drop (pos + (3 * w - x)) img)" .
  have "take (3 * w - x) (drop ?k pd) = pd ! ?k # take (3 * w - Suc x) (drop (Suc ?k) pd)"
    using k by (simp add: cnt flip: Cons_nth_drop_Suc)
  then show ?case using step cnt by simp
qed

lemma scanline_loop_closed:
  "y \<le> h \<Longrightarrow> length pd = 3 * w * h \<Longrightarrow> length img = h * (1 + 3 * w) \<Longrightarrow>
   scanline_loop y w h pd (y * (1 + 3 * w), img) =
     (h * (1 + 3 * w),
      take (y * (1 + 3 * w)) img @
      concat (map (\<lambda>j. 0 # take (3 * w) (drop (j * w * 3) pd)) [y..<h]))"
proof (induction "h - y" arbitrary: y img)
  case 0
  then show ?case by (simp add: scanline_loop.simps)
next
  case (Suc m)
  define pos where "pos = y * (1 + 3 * w)"
  define pos' where "pos' = Suc y * (1 + 3 * w)"
  define row where "row = take (3 * w) (drop (y * w * 3) pd)"
  define img0 where "img0 = img[pos := 0]"
  define img' where "img' = take (Suc pos) img0 @ row @ drop (Suc pos + 3 * w) img0"
  from Suc have lt: "y < h" and m: "m = h - Suc y" by simp_all
  have next_pos: "Suc pos + 3 * w = pos'" by (simp add: pos_def pos'_def)
  have "Suc y * (1 + 3 * w) \<le> h * (1 + 3 * w)"
    using lt by (intro mult_le_mono1) simp
  then have fits: "pos' \<le> length img"
    using Suc.prems by (simp add: pos'_def)
  have fits0: "Suc pos + (3 * w - 0) \<le> length img0"
    using fits next_pos by (simp add: img0_def)
  have "Suc y * (3 * w) \<le> h * (3 * w)"
    using lt by (intro mult_le_mono1) simp
  then have src: "y * w * 3 + 3 * w \<le> length pd"
    using Suc.prems by (simp add: algebra_simps)
  have rowlen: "length row = 3 * w" using src by (simp add: row_def)
  have "row_loop 0 y w pd (Suc pos, img0) =
      (Suc pos + (3 * w - 0),
       take (Suc pos) img0 @ take (3 * w - 0) (drop (y * w * 3 + 0) pd)
         @ drop (Suc pos + (3 * w - 0)) img0)"
    by (rule row_loop_closed[OF _ fits0]) (use src in simp_all)
  then have row: "row_loop 0 y w pd (Suc pos, img0) = (pos', img')"
    using next_pos by (simp add: img'_def row_def)
  have len0: "length img0 = length img" by (simp add: img0_def)
  have pos_lt: "pos < length img" using fits next_pos by simp
  have tk: "take (Suc pos) img0 = take pos img @ [0]"
    unfolding img0_def using pos_lt by (rule take_Suc_update)
  have len': "length img' = h * (1 + 3 * w)"
    using fits next_pos rowlen len0 Suc.prems(3) pos_lt by (simp add: img'_def)
  have "length (take (Suc pos) img0 @ row) = pos'"
    using pos_lt len0 rowlen next_pos by simp
  then have pre: "take pos' img' = take pos img @ [0] @ row"
    unfolding img'_def using tk by (metis append.assoc append_eq_conv_conj)
  have step: "scanline_loop y w h pd (pos, img) = scanline_loop (Suc y) w h pd (pos', img')"
    using lt row by (subst scanline_loop.simps) (simp add: img0_def)
  have ih: "scanline_loop (Suc y) w h pd (Suc y * (1 + 3 * w), img') =
     (h * (1 + 3 * w),
      take (Suc y * (1 + 3 * w)) img' @
      concat (map (\<lambda>j. 0 # take (3 * w) (drop (j * w * 3) pd)) [Suc y..<h]))"
    by (rule Suc.hyps(1)[OF m _ Suc.prems(2) len']) (use lt in simp)
  have "[y..<h] = y # [Suc y..<h]" using lt by (simp add: upt_conv_Cons)
  then show ?case
    using step ih pre unfolding pos_def[symmetric] pos'_def[symmetric]
    by (simp add: row_def)
qed

lemma pixelData_closed:
  assumes "width * height * 3 \<le> kMaxLength"
  shows "pixelData width height r g b =
           Inr (concat (replicate (width * height) [toUint8 r, toUint8 g, toUint8 b]))"
proof -
  have "pixel_loop (3 * 0) r g b (replicate (width * height * 3) 0) =
          take (3 * 0) (replicate (width * height * 3) 0) @
          concat (replicate (width * height - 0) [toUint8 r, toUint8 g, toUint8 b])"
    by (rule pixel_loop_closed) simp_all
  then show ?thesis
    using assms by (simp add: pixelData_def Buffer_alloc_def)
qed

lemma row_of_pixels:
  assumes "j < h"
  shows "take (3 * w) (drop (j * w * 3) (concat (replicate (w * h) [r, g, b])))
           = concat (replicate w [r, g, b])"
proof -
  define P where "P = concat (replicate (j * w) [r, g, b])"
  define Q where "Q = concat (replicate w [r, g, b])"
  define R where "R = concat (replicate ((h - Suc j) * w) [r, g, b])"
  have "h = j + (1 + (h - Suc j))" using assms by simp
  then have "w * h = (j + (1 + (h - Suc j))) * w" by (simp only: mult.commute)
  also have "\<dots> = j * w + (w + (h - Suc j) * w)" by (simp only: add_mult_distrib mult_1)
  finally have "concat (replicate (w * h) [r, g, b]) = P @ Q @ R"
    by (simp only: concat_replicate_add P_def Q_def R_def)
  moreover have "length P = j * w * 3"
    by (simp only: P_def length_concat_replicate) simp
  moreover have "length Q = 3 * w"
    by (simp only: Q_def length_concat_replicate) simp
  ultimately show ?thesis
    unfolding Q_def[symmetric] by simp
qed

lemma imageData_closed:
  assumes "height * (1 + width * 3) \<le> kMaxLength"
  shows "imageData width height r g b =
           Inr (scanlines width height (toUint8 r) (toUint8 g) (toUint8 b))"
proof -
  define pd where "pd = concat (replicate (width * height) [toUint8 r, toUint8 g, toUint8 b])"
  define img where "img = replicate (height + length pd) (0 :: byte)"
  have "width * height * 3 \<le> height * (1 + width * 3)"
    by (simp add: add_mult_distrib2 mult_ac)
  then have "width * height * 3 \<le> kMaxLength" using assms by (rule le_trans)
  then have px: "pixelData width height r g b = Inr pd"
    unfolding pd_def by (rule pixelData_closed)
  have lenpd: "length pd = 3 * width * height"
    by (simp add: pd_def length_concat_replicate)
  have size_eq: "height + length pd = height * (1 + width * 3)"
    by (simp add: lenpd add_mult_distrib2 mult_ac)
  have lenimg: "length img = height * (1 + 3 * width)"
    by (simp add: img_def lenpd add_mult_distrib2 mult_ac)
  have "\<not> kMaxLength < height + length pd"
    using assms unfolding size_eq by simp
  then have alloc: "Buffer_alloc (height + length pd) = Inr img"
    unfolding Buffer_alloc_def img_def by simp
  have "scanline_loop 0 width height pd (0 * (1 + 3 * width), img) =
     (height * (1 + 3 * width),
      take (0 * (1 + 3 * width)) img @
      concat (map (\<lambda>j. 0 # take (3 * width) (drop (j * width * 3) pd)) [0..<height]))"
    by (rule scanline_loop_closed[OF _ lenpd lenimg]) simp
  then have loop: "snd (scanline_loop 0 width height pd (0, img)) =
      concat (map (\<lambda>j. 0 # take (3 * width) (drop (j * width * 3) pd)) [0..<height])"
    by simp
  have "map (\<lambda>j. 0 # take (3 * width) (drop (j * width * 3) pd)) [0..<height]
        = map (\<lambda>j. scanline width (toUint8 r) (toUint8 g) (toUint8 b)) [0..<height]"
    by (rule map_cong) (simp_all add: pd_def row_of_pixels scanline_def)
  also have "\<dots> = replicate height (scanline width (toUint8 r) (toUint8 g) (toUint8 b))"
    by (simp add: map_replicate_const)
  finally have "snd (scanline_loop 0 width height pd (0, img)) =
      scanlines width height (toUint8 r) (toUint8 g) (toUint8 b)"
    using loop by (simp add: scanlines_def)
  then show ?thesis
    unfolding imageData_def px using alloc by simp
qed

lemma length_scanlines: "length (scanlines width height r g b) = height * (1 + width * 3)"
  by (simp add: scanlines_def scanline_def length_concat_replicate)

lemma raster_fits:
  assumes "width \<le> 4096" "height \<le> 4096"
  shows "height * (1 + width * 3) \<le> kMaxLength"
proof -
  have "height * (1 + width * 3) \<le> 4096 * (1 + 4096 * 3)"
    using assms by (intro mult_le_mono add_le_mono) simp_all
  also have "\<dots> \<le> kMaxLength" by (simp add: kMaxLength_def)
  finally show ?thesis .
qed

text \<open>
  C8: for valid dimensions and any colour channels, the buffer that \<open>generatePNG\<close> builds in
  \<open>imageData\<close> and hands to \<open>deflateData\<close> is \<open>height\<close> rows, each the filter byte 0
  followed by \<open>width\<close> repetitions of the three channel bytes, \<open>height * (1 + width * 3)\<close>
  bytes in all.
\<close>

theorem scanline_buffer_layout:
  assumes "1 \<le> width" "width \<le> 4096" "1 \<le> height" "height \<le> 4096"
  shows "imageData width height r g b =
           Inr (concat (replicate height
                  (0 # concat (replicate width [toUint8 r, toUint8 g, toUint8 b]))))
         \<and> length (concat (replicate height
                  (0 # concat (replicate width [toUint8 r, toUint8 g, toUint8 b]))))
             = height * (1 + width * 3)"
  using imageData_closed[OF raster_fits[OF assms(2,4)], of r g b]
        length_scanlines[of width height "toUint8 r" "toUint8 g" "toUint8 b"]
  by (simp add: scanlines_def scanline_def)

theorem scanline_buffer_layout_witness:
  "(1::nat) \<le> 1 \<and> (1::nat) \<le> 4096 \<and> (1::nat) \<le> 3 \<and> (3::nat) \<le> 4096 \<and>
   imageData 1 3 (Some 18) (Some 52) (Some 86) =
     Inr [0, 0x12, 0x34, 0x56, 0, 0x12, 0x34, 0x56, 0, 0x12, 0x34, 0x56]"
  using scanline_buffer_layout[of 1 3 "Some 18" "Some 52" "Some 86"]
  by (simp add: toUint8_def numeral_3_eq_3)

section \<open>The buffer primitives on well-formed arguments\<close>

lemma update4_conv:
  assumes "off + 4 \<le> length buf"
  shows "buf[off := a, off + 1 := b, off + 2 := c, off + 3 := d]
           = take off buf @ [a, b, c, d] @ drop (off + 4) buf"
proof (rule nth_equalityI)
  show "length (buf[off := a, off + 1 := b, off + 2 := c, off + 3 := d])
          = length (take off buf @ [a, b, c, d] @ drop (off + 4) buf)"
    using assms by simp
next
  fix i
  assume "i < length (buf[off := a, off + 1 := b, off + 2 := c, off + 3 := d])"
  then have i: "i < length buf" by simp
  consider "i < off" | "i = off" | "i = off + 1" | "i = off + 2" | "i = off + 3" | "off + 4 \<le> i"
    by linarith
  then show "buf[off := a, off + 1 := b, off + 2 := c, off + 3 := d] ! i
               = (take off buf @ [a, b, c, d] @ drop (off + 4) buf) ! i"
  proof cases
    case 6
    then obtain k where k: "i = off + 4 + k" using le_Suc_ex by blast
    show ?thesis using i assms unfolding k
      by (simp add: nth_append)
  qed (use i assms in \<open>simp_all add: nth_append\<close>)
qed

lemma update2_conv:
  assumes "off + 2 \<le> length buf"
  shows "buf[off := a, off + 1 := b] = take off buf @ [a, b] @ drop (off + 2) buf"
proof (rule nth_equalityI)
  show "length (buf[off := a, off + 1 := b]) = length (take off buf @ [a, b] @ drop (off + 2) buf)"
    using assms by simp
next
  fix i
  assume "i < length (buf[off := a, off + 1 := b])"
  then have i: "i < length buf" by simp
  consider "i < off" | "i = off" | "i = off + 1" | "off + 2 \<le> i"
    by linarith
  then show "buf[off := a, off + 1 := b] ! i = (take off buf @ [a, b] @ drop (off + 2) buf) ! i"
  proof cases
    case 4
    then obtain k where k: "i = off + 2 + k" using le_Suc_ex by blast
    show ?thesis using i assms unfolding k
      by (simp add: nth_append)
  qed (use i assms in \<open>simp_all add: nth_append\<close>)
qed

lemma writeUInt32BE_ok:
  "0 \<le> v \<Longrightarrow> v \<le> 0xFFFFFFFF \<Longrightarrow> off + 4 \<le> length buf \<Longrightarrow>
   writeUInt32BE v off buf = Inr (take off buf @ u32be v @ drop (off + 4) buf)"
  using update4_conv[of off buf "word_of_int (v div 16777216)" "word_of_int (v div 65536)"
          "word_of_int (v div 256)" "word_of_int v"]
  by (simp add: writeUInt32BE_def u32be_def)

lemma writeUInt32BE_negative: "v < 0 \<Longrightarrow> writeUInt32BE v off buf = Inl RangeError"
  by (simp add: writeUInt32BE_def)

lemma writeUInt16LE_ok:
  "0 \<le> v \<Longrightarrow> v \<le> 0xFFFF \<Longrightarrow> off + 2 \<le> length buf \<Longrightarrow>
   writeUInt16LE v off buf = Inr (take off buf @ u16le v @ drop (off + 2) buf)"
  using update2_conv[of off buf "word_of_int v" "word_of_int (v div 256)"]
  by (simp add: writeUInt16LE_def u16le_def)

lemma writeUInt8_ok:
  "0 \<le> v \<Longrightarrow> v \<le> 0xFF \<Longrightarrow> off < length buf \<Longrightarrow>
   writeUInt8 v off buf = Inr (take off buf @ [word_of_int v] @ drop (Suc off) buf)"
  unfolding writeUInt8_def by (simp add: upd_conv_take_nth_drop)

lemma Buffer_alloc_4: "Buffer_alloc 4 = Inr [0, 0, 0, 0]"
proof -
  have "replicate 4 (0 :: byte) = [0, 0, 0, 0]" by (simp add: numeral_eq_Suc)
  then show ?thesis by (simp add: Buffer_alloc_def kMaxLength_def)
qed

lemma Buffer_alloc_13: "Buffer_alloc 13 = Inr [0, 0, 0, 0, 0, 0, 0, 0, 0, 0, 0, 0, 0]"
proof -
  have "replicate 13 (0 :: byte) = [0, 0, 0, 0, 0, 0, 0, 0, 0, 0, 0, 0, 0]"
    by (simp add: numeral_eq_Suc)
  then show ?thesis by (simp add: Buffer_alloc_def kMaxLength_def)
qed

lemma length_u32be: "length (u32be v) = 4"
  by (simp add: u32be_def)

lemma length_u16le: "length (u16le v) = 2"
  by (simp add: u16le_def)

lemma Buffer_from_IHDR: "Buffer_from ''IHDR'' = [0x49, 0x48, 0x44, 0x52]"
  by (simp add: Buffer_from_def utf8_def)

lemma Buffer_from_IDAT: "Buffer_from ''IDAT'' = [0x49, 0x44, 0x41, 0x54]"
  by (simp add: Buffer_from_def utf8_def)

lemma Buffer_from_IEND: "Buffer_from ''IEND'' = [0x49, 0x45, 0x4E, 0x44]"
  by (simp add: Buffer_from_def utf8_def)

section \<open>deflateData: what the block loop emits\<close>

lemma lengthBytes_closed:
  assumes "0 \<le> len" "len \<le> 0xFFFF"
  shows "writeUInt16LE len 0 [0, 0, 0, 0] = Inr (u16le len @ [0, 0])"
    and "writeUInt16LE (0xFFFF - len) 2 (u16le len @ [0, 0]) = Inr (u16le len @ u16le (0xFFFF - len))"
proof -
  show "writeUInt16LE len 0 [0, 0, 0, 0] = Inr (u16le len @ [0, 0])"
    using assms by (simp add: writeUInt16LE_ok)
  have "writeUInt16LE (0xFFFF - len) 2 (u16le len @ [0, 0])
          = Inr (take 2 (u16le len @ [0, 0]) @ u16le (0xFFFF - len) @ drop (2 + 2) (u16le len @ [0, 0]))"
    using assms by (intro writeUInt16LE_ok) (simp_all add: length_u16le)
  then show "writeUInt16LE (0xFFFF - len) 2 (u16le len @ [0, 0]) = Inr (u16le len @ u16le (0xFFFF - len))"
    by (simp add: length_u16le)
qed

lemma deflate_loop_step:
  assumes "i < length data"
  shows "deflate_loop i data blocks =
           deflate_loop (i + 65535) data
             (blocks @ [[if length data \<le> i + 65535 then 1 else 0],
                        u16le (int (min 65535 (length data - i)))
                          @ u16le (0xFFFF - int (min 65535 (length data - i))),
                        take (min 65535 (length data - i)) (drop i data)])"
proof -
  define n where "n = min 65535 (length data - i)"
  have sub: "subarray data i (min (i + maxBlockSize) (length data)) = take n (drop i data)"
    using assms by (simp add: subarray_def maxBlockSize_def n_def min_def)
  have len: "length (take n (drop i data)) = n"
    using assms by (simp add: n_def)
  have bounds: "0 \<le> int n" "int n \<le> 0xFFFF" by (simp_all add: n_def)
  show ?thesis
    apply (subst deflate_loop.simps)
    apply (simp only: sub Let_def len Buffer_alloc_4 sum.case lengthBytes_closed[OF bounds] assms if_True)
    apply (simp add: maxBlockSize_def n_def)
    done
qed

lemma deflate_loop_done: "\<not> i < length data \<Longrightarrow> deflate_loop i data blocks = Inr blocks"
  by (subst deflate_loop.simps) simp

lemma split_blocks_nonempty: "split_blocks data \<noteq> []"
  by (subst split_blocks.simps) simp

lemma stored_blocks_Cons:
  "rest \<noteq> [] \<Longrightarrow> stored_blocks (bs # rest) = stored_block False bs @ stored_blocks rest"
  by (cases rest) simp_all

lemma deflate_loop_closed:
  "i < length data \<Longrightarrow>
   \<exists>bs. deflate_loop i data blocks = Inr bs \<and>
        concat bs = concat blocks @ stored_blocks (split_blocks (drop i data))"
proof (induction "length data - i" arbitrary: i blocks rule: less_induct)
  case less
  define n where "n = min 65535 (length data - i)"
  define blocks' where "blocks' = blocks @ [[if length data \<le> i + 65535 then 1 else 0],
                        u16le (int n) @ u16le (0xFFFF - int n), take n (drop i data)]"
  have step: "deflate_loop i data blocks = deflate_loop (i + 65535) data blocks'"
    unfolding blocks'_def n_def using less.prems by (rule deflate_loop_step)
  show ?case
  proof (cases "length data \<le> i + 65535")
    case True
    then have n: "n = length data - i" by (simp add: n_def)
    have "length (drop i data) \<le> 65535"
      using True by (simp add: le_diff_conv)
    then have sb: "split_blocks (drop i data) = [drop i data]"
      by (subst split_blocks.simps) (simp only: if_True)
    have "deflate_loop i data blocks = Inr blocks'"
      using True step by (simp add: deflate_loop_done)
    moreover have "concat blocks' = concat blocks @ stored_blocks (split_blocks (drop i data))"
      using True by (simp add: blocks'_def sb stored_block_def n)
    ultimately show ?thesis by blast
  next
    case False
    then have n: "n = 65535" by (simp add: n_def)
    have lt: "i + 65535 < length data" using False by simp
    have "\<not> length (drop i data) \<le> 65535"
      using False by (simp add: le_diff_conv)
    then have "split_blocks (drop i data)
                = take 65535 (drop i data) # split_blocks (drop 65535 (drop i data))"
      by (subst split_blocks.simps) (simp only: if_False)
    then have sb: "split_blocks (drop i data)
                = take 65535 (drop i data) # split_blocks (drop (i + 65535) data)"
      by (simp add: add.commute)
    have dec: "length data - (i + 65535) < length data - i"
      using lt by linarith
    obtain bs where bs: "deflate_loop (i + 65535) data blocks' = Inr bs"
        "concat bs = concat blocks' @ stored_blocks (split_blocks (drop (i + 65535) data))"
      using less.hyps[OF dec lt, of blocks'] by blast
    have "concat blocks' @ stored_blocks (split_blocks (drop (i + 65535) data))
             = concat blocks @ stored_blocks (split_blocks (drop i data))"
      using False lt
      by (simp add: blocks'_def sb stored_blocks_Cons split_blocks_nonempty stored_block_def n)
    then show ?thesis using step bs by simp
  qed
qed

section \<open>adler32: the signed result\<close>

lemma signed32_of_unsigned:
  fixes u :: int
  assumes "0 \<le> u" "u < 4294967296"
  shows "(u + 2147483648) mod 4294967296 - 2147483648 = (if u < 2147483648 then u else u - 4294967296)"
proof (cases "u < 2147483648")
  case True
  then have "(u + 2147483648) mod 4294967296 = u + 2147483648"
    using assms by (intro mod_pos_pos_trivial) simp_all
  then show ?thesis using True by simp
next
  case False
  have "(u + 2147483648) mod 4294967296 = (u + 2147483648 - 4294967296) mod 4294967296"
    by (simp only: minus_mod_self2)
  also have "\<dots> = u + 2147483648 - 4294967296"
    using assms False by (intro mod_pos_pos_trivial) simp_all
  finally show ?thesis using False by simp
qed


lemma sint32_cases:
  fixes w :: "32 word"
  shows "sint w = (if uint w < 2147483648 then uint w else uint w - 4294967296)"
proof -
  have "sint w = take_bit 32 (uint w + 2 ^ 31) - 2 ^ 31"
    unfolding sint_uint signed_take_bit_eq_take_bit_shift by simp
  also have "take_bit 32 (uint w + 2 ^ 31) = (uint w + 2 ^ 31) mod 2 ^ 32"
    by (rule take_bit_eq_mod)
  finally have s: "sint w = (uint w + 2147483648) mod 4294967296 - 2147483648"
    by simp
  have "0 \<le> uint w" "uint w < 4294967296"
    using uint_lt2p[of w] by simp_all
  then show ?thesis unfolding s by (rule signed32_of_unsigned)
qed

lemma adler32_loop_Cons:
  "adler32_loop a b (d # data) =
     adler32_loop ((a + unat d) mod 65521) ((b + (a + unat d) mod 65521) mod 65521) data"
  by (simp add: adler32_loop.simps Let_def MOD_ADLER_def)

lemma adler32_loop_foldl: "adler32_loop a b data = foldl adler32_sums (a, b) data"
  by (induction data arbitrary: a b)
     (simp_all add: adler32_loop.simps adler32_sums_def Let_def MOD_ADLER_def)

lemma adler32_signed:
  "adler32 data =
     (if adler32_spec data < 2147483648 then adler32_spec data
      else adler32_spec data - 4294967296)"
  unfolding adler32_def adler32_spec_def adler32_loop_foldl Let_def case_prod_beta
  by (rule sint32_cases)

lemma adler32_spec_range: "0 \<le> adler32_spec data \<and> adler32_spec data < 4294967296"
proof -
  have "uint w < 4294967296" for w :: "32 word"
    using uint_lt2p[of w] by simp
  then show ?thesis
    by (simp add: adler32_spec_def Let_def)
qed

lemma adler32_nonneg: "0 \<le> adler32 data \<Longrightarrow> adler32 data = adler32_spec data"
  using adler32_spec_range[of data] by (simp add: adler32_signed split: if_splits)

lemma adler32_upper: "adler32 data \<le> 0xFFFFFFFF"
  using adler32_spec_range[of data] by (simp add: adler32_signed)

lemma adler32_negative_iff: "adler32 data < 0 \<longleftrightarrow> 2147483648 \<le> adler32_spec data"
  using adler32_spec_range[of data] by (simp add: adler32_signed)

lemma deflate_blocks_total:
  "\<exists>bs. deflate_loop 0 data [] = Inr bs \<and>
        concat bs = (if data = [] then [] else stored_blocks (split_blocks data))"
proof (cases "data = []")
  case True
  then show ?thesis by (simp add: deflate_loop_done)
next
  case False
  then have "0 < length data" by simp
  from deflate_loop_closed[OF this, of "[]"] show ?thesis using False by simp
qed

lemma deflateData_closed:
  "deflateData data =
     (if adler32 data < 0 then Inl RangeError
      else Inr ([0x78, 0x01]
                @ (if data = [] then [] else stored_blocks (split_blocks data))
                @ u32be (adler32 data)))"
proof -
  obtain bs where bs: "deflate_loop 0 data [] = Inr bs"
      "concat bs = (if data = [] then [] else stored_blocks (split_blocks data))"
    using deflate_blocks_total by blast
  show ?thesis
  proof (cases "adler32 data < 0")
    case True
    then show ?thesis
      by (simp add: deflateData_def bs(1) Let_def Buffer_alloc_4 writeUInt32BE_negative)
  next
    case False
    then have "writeUInt32BE (adler32 data) 0 [0, 0, 0, 0] = Inr (u32be (adler32 data))"
      using adler32_upper[of data] by (simp add: writeUInt32BE_ok)
    then show ?thesis
      using False by (simp add: deflateData_def bs Let_def Buffer_alloc_4)
  qed
qed

section \<open>The stream wrapper against the specified stream\<close>

lemma split_blocks_single: "length data \<le> 65535 \<Longrightarrow> split_blocks data = [data]"
  by (subst split_blocks.simps) simp

lemma split_blocks_more:
  "65535 < length data \<Longrightarrow>
   split_blocks data = take 65535 data # split_blocks (drop 65535 data)"
  by (subst split_blocks.simps) simp

lemma concat_split_blocks: "concat (split_blocks data) = data"
proof (induction "length data" arbitrary: data rule: less_induct)
  case less
  show ?case
  proof (cases "length data \<le> 65535")
    case True
    then show ?thesis by (simp add: split_blocks_single)
  next
    case False
    then have "concat (split_blocks (drop 65535 data)) = drop 65535 data"
      by (intro less.hyps) simp
    then show ?thesis using False by (simp add: split_blocks_more)
  qed
qed

lemma split_blocks_bounded: "bs \<in> set (split_blocks data) \<Longrightarrow> length bs \<le> 65535"
proof (induction "length data" arbitrary: data rule: less_induct)
  case less
  show ?case
  proof (cases "length data \<le> 65535")
    case True
    then show ?thesis using less.prems by (simp add: split_blocks_single)
  next
    case False
    have "length (drop 65535 data) < length data" using False by simp
    from less.hyps[OF this] show ?thesis
      using False less.prems by (auto simp: split_blocks_more)
  qed
qed

lemma length_split_blocks:
  "data \<noteq> [] \<Longrightarrow> length (split_blocks data) = (length data + 65534) div 65535"
proof (induction "length data" arbitrary: data rule: less_induct)
  case less
  show ?case
  proof (cases "length data \<le> 65535")
    case True
    moreover have "0 < length data" using less.prems by simp
    ultimately have "\<exists>m. length data + 65534 = 65535 + m \<and> m < 65535"
      by (intro exI[of _ "length data - 1"]) simp
    then obtain m where m: "length data + 65534 = 65535 + m" "m < 65535"
      by blast
    have "(length data + 65534) div 65535 = 1"
      unfolding m(1) using m(2) by simp
    then show ?thesis using True by (simp add: split_blocks_single)
  next
    case False
    then obtain n where n: "length data = 65535 + n" "0 < n"
      by (metis add_diff_inverse_nat less_imp_le_nat not_le zero_less_diff)
    have "length (drop 65535 data) < length data" "drop 65535 data \<noteq> []"
      using False by simp_all
    from less.hyps[OF this] have "length (split_blocks (drop 65535 data)) = (n + 65534) div 65535"
      by (simp add: n)
    then show ?thesis using False by (simp add: split_blocks_more n)
  qed
qed

text \<open>
  Whenever \<open>adler32\<close> does not come out negative and the input is not empty,
  \<open>deflateData\<close> returns the specified stream.
\<close>

lemma deflateData_stream:
  assumes "data \<noteq> []" "0 \<le> adler32 data"
  shows "deflateData data = Inr (stream_spec data)"
  using assms adler32_spec_range[of data]
  by (simp add: deflateData_closed stream_spec_def adler32_nonneg)

text \<open>The raster of a 4096 by 4096 image is cut into 769 stored blocks.\<close>

lemma blocks_of_largest_raster:
  assumes "length data = 4096 * (1 + 4096 * 3)"
  shows "length (split_blocks data) = 769"
proof -
  have "data \<noteq> []" using assms by auto
  then show ?thesis using assms by (simp add: length_split_blocks)
qed

section \<open>The worked example: a red image of 2 by 2 pixels\<close>

lemma hexToRgb_red: "hexToRgb ''#ff0000'' = (Some 255, Some 0, Some 0)"
  by (simp add: hexToRgb_def parseInt16_def substr_def hexDigit_def isWhiteSpace_def Let_def
           cong: let_weak_cong)

lemma imageData_2x2_red:
  "imageData 2 2 (Some 255) (Some 0) (Some 0) =
     Inr [0, 0xFF, 0, 0, 0xFF, 0, 0, 0, 0xFF, 0, 0, 0xFF, 0, 0]"
proof -
  have "(2::nat) * (1 + 2 * 3) \<le> kMaxLength" by (simp add: kMaxLength_def)
  from imageData_closed[OF this, of "Some 255" "Some 0" "Some 0"] show ?thesis
    by (simp add: scanlines_def scanline_def toUint8_def numeral_2_eq_2)
qed

lemma adler32_loop_2x2_red:
  "adler32_loop 1 0 [0, 0xFF, 0, 0, 0xFF, 0, 0, 0, 0xFF, 0, 0, 0xFF, 0, 0] = (1021, 8174)"
  by (simp add: adler32_loop_Cons adler32_loop.simps(1))

lemma adler32_2x2_red:
  "adler32 [0, 0xFF, 0, 0, 0xFF, 0, 0, 0, 0xFF, 0, 0, 0xFF, 0, 0] = 535692285"
  unfolding adler32_def adler32_loop_2x2_red by simp

text \<open>
  C1: for \<open>generatePNG(2, 2, '#ff0000')\<close> the colour parses to \<open>{255, 0, 0}\<close>, the
  scanline buffer is the 14 bytes \<open>[0,255,0,0,255,0,0, 0,255,0,0,255,0,0]\<close>, and
  \<open>deflateData\<close> of it is the header \<open>78 01\<close>, one stored block with header byte \<open>01\<close>,
  length \<open>0E 00\<close>, complement \<open>F1 FF\<close> and the 14 bytes, then the big-endian Adler-32 of
  the 14 bytes, which is \<open>1F EE 03 FD\<close>.
\<close>

theorem encode_2x2_red:
  "hexToRgb ''#ff0000'' = (Some 255, Some 0, Some 0) \<and>
   imageData 2 2 (Some 255) (Some 0) (Some 0) =
     Inr [0, 0xFF, 0, 0, 0xFF, 0, 0, 0, 0xFF, 0, 0, 0xFF, 0, 0] \<and>
   deflateData [0, 0xFF, 0, 0, 0xFF, 0, 0, 0, 0xFF, 0, 0, 0xFF, 0, 0] =
     Inr ([0x78, 0x01] @ [0x01] @ [0x0E, 0x00] @ [0xF1, 0xFF]
          @ [0, 0xFF, 0, 0, 0xFF, 0, 0, 0, 0xFF, 0, 0, 0xFF, 0, 0]
          @ u32be (adler32_spec [0, 0xFF, 0, 0, 0xFF, 0, 0, 0, 0xFF, 0, 0, 0xFF, 0, 0])) \<and>
   u32be (adler32_spec [0, 0xFF, 0, 0, 0xFF, 0, 0, 0, 0xFF, 0, 0, 0xFF, 0, 0])
     = [0x1F, 0xEE, 0x03, 0xFD]"
proof -
  let ?img = "[0, 0xFF, 0, 0, 0xFF, 0, 0, 0, 0xFF, 0, 0, 0xFF, 0, 0] :: buffer"
  have spec: "adler32_spec ?img = 535692285"
    using adler32_nonneg[of ?img] by (simp add: adler32_2x2_red)
  have stream: "deflateData ?img = Inr ([0x78, 0x01] @ [0x01] @ [0x0E, 0x00] @ [0xF1, 0xFF]
          @ ?img @ u32be 535692285)"
    by (simp add: deflateData_closed adler32_2x2_red split_blocks_single stored_block_def
          u16le_def)
  have trailer: "u32be 535692285 = [0x1F, 0xEE, 0x03, 0xFD]"
    by (simp add: u32be_def)
  show ?thesis
    unfolding spec using hexToRgb_red imageData_2x2_red stream trailer by simp
qed

section \<open>Inputs on which the code departs from the specification\<close>

lemma adler32_loop_16_ff:
  "adler32_loop 1 0 [0xFF, 0xFF, 0xFF, 0xFF, 0xFF, 0xFF, 0xFF, 0xFF,
                     0xFF, 0xFF, 0xFF, 0xFF, 0xFF, 0xFF, 0xFF, 0xFF] = (4081, 34696)"
  by (simp add: adler32_loop_Cons adler32_loop.simps(1))

lemma adler32_16_ff:
  "adler32 [0xFF, 0xFF, 0xFF, 0xFF, 0xFF, 0xFF, 0xFF, 0xFF,
            0xFF, 0xFF, 0xFF, 0xFF, 0xFF, 0xFF, 0xFF, 0xFF] = - 2021126159"
  unfolding adler32_def adler32_loop_16_ff by simp

text \<open>
  C4: on sixteen bytes \<open>0xFF\<close> the sums are \<open>a = 4081\<close> and \<open>b = 34696\<close>; \<open>b\<close> has bit 15
  set, so \<open>(b << 16) | a\<close> is the negative number \<open>-2021126159\<close> in JavaScript, where the
  specified unsigned value is \<open>2273841137\<close>. On the empty input the result is 1.
\<close>

theorem adler32_is_signed:
  "adler32 [0xFF, 0xFF, 0xFF, 0xFF, 0xFF, 0xFF, 0xFF, 0xFF,
            0xFF, 0xFF, 0xFF, 0xFF, 0xFF, 0xFF, 0xFF, 0xFF] = - 2021126159 \<and>
   adler32_spec [0xFF, 0xFF, 0xFF, 0xFF, 0xFF, 0xFF, 0xFF, 0xFF,
                 0xFF, 0xFF, 0xFF, 0xFF, 0xFF, 0xFF, 0xFF, 0xFF] = 2273841137 \<and>
   adler32 [] = 1"
proof -
  let ?d = "[0xFF, 0xFF, 0xFF, 0xFF, 0xFF, 0xFF, 0xFF, 0xFF,
             0xFF, 0xFF, 0xFF, 0xFF, 0xFF, 0xFF, 0xFF, 0xFF] :: buffer"
  have "adler32_spec ?d = 2273841137"
    using adler32_signed[of ?d] adler32_spec_range[of ?d] unfolding adler32_16_ff
    by (simp split: if_splits)
  moreover have "adler32 [] = 1"
    by (simp add: adler32_def adler32_loop.simps(1))
  ultimately show ?thesis using adler32_16_ff by simp
qed

text \<open>
  C2: on the same sixteen bytes \<open>deflateData\<close> does not emit a stream:
  \<open>adlerBytes.writeUInt32BE(adler, 0)\<close> is called with the negative \<open>adler\<close> and throws.
\<close>

theorem deflateData_throws:
  "deflateData [0xFF, 0xFF, 0xFF, 0xFF, 0xFF, 0xFF, 0xFF, 0xFF,
                0xFF, 0xFF, 0xFF, 0xFF, 0xFF, 0xFF, 0xFF, 0xFF] = Inl RangeError"
  by (simp add: deflateData_closed adler32_16_ff)

text \<open>
  C3: on the empty input the block loop does not run, and \<open>deflateData\<close> returns the
  header and the trailer with no block between them; the specified stream has one empty
  final block there.
\<close>

theorem deflateData_empty_has_no_block:
  "deflateData [] = Inr [0x78, 0x01, 0x00, 0x00, 0x00, 0x01] \<and>
   stream_spec [] = [0x78, 0x01, 0x01, 0x00, 0x00, 0xFF, 0xFF, 0x00, 0x00, 0x00, 0x01]"
proof -
  have a: "adler32 [] = 1" by (simp add: adler32_def adler32_loop.simps(1))
  have s: "adler32_spec [] = 1" by (simp add: adler32_spec_def)
  have "deflateData [] = Inr [0x78, 0x01, 0x00, 0x00, 0x00, 0x01]"
    by (simp add: deflateData_closed a u32be_def)
  moreover have "stream_spec [] = [0x78, 0x01, 0x01, 0x00, 0x00, 0xFF, 0xFF, 0x00, 0x00, 0x00, 0x01]"
    by (simp add: stream_spec_def s split_blocks_single stored_block_def u16le_def u32be_def)
  ultimately show ?thesis by simp
qed

section \<open>Chunks\<close>

lemma crc32_range: "0 \<le> crc32 data \<and> crc32 data \<le> 0xFFFFFFFF"
proof -
  have "uint w \<le> 0xFFFFFFFF" for w :: "32 word"
    using uint_lt2p[of w] by simp
  then show ?thesis by (simp add: crc32_def)
qed

lemma write_trailer:
  assumes "0 \<le> v" "v \<le> 0xFFFFFFFF"
  shows "writeUInt32BE v (length (xs @ [0, 0, 0, 0]) - 4) (xs @ [0, 0, 0, 0]) = Inr (xs @ u32be v)"
proof -
  have "writeUInt32BE v (length xs) (xs @ [0, 0, 0, 0])
          = Inr (take (length xs) (xs @ [0, 0, 0, 0]) @ u32be v
                 @ drop (length xs + 4) (xs @ [0, 0, 0, 0]))"
    using assms by (intro writeUInt32BE_ok) simp_all
  then show ?thesis by simp
qed

lemma write_length:
  assumes "0 \<le> v" "v \<le> 0xFFFFFFFF"
  shows "writeUInt32BE v 0 ([0, 0, 0, 0] @ xs) = Inr (u32be v @ xs)"
proof -
  have "writeUInt32BE v 0 ([0, 0, 0, 0] @ xs)
          = Inr (take 0 ([0, 0, 0, 0] @ xs) @ u32be v @ drop (0 + 4) ([0, 0, 0, 0] @ xs))"
    using assms by (intro writeUInt32BE_ok) simp_all
  then show ?thesis by simp
qed

lemma ihdr_closed:
  assumes "length hdata = 13"
  shows "ihdr hdata = Inr (make_chunk (Buffer_from ''IHDR'') hdata)"
proof -
  have len: "u32be (int (length hdata)) = [0x00, 0x00, 0x00, 0x0D]"
    by (simp add: assms u32be_def)
  have "writeUInt32BE (crc32 (Buffer_from ''IHDR'' @ hdata))
          (length (([0x00, 0x00, 0x00, 0x0D] @ Buffer_from ''IHDR'' @ hdata) @ [0, 0, 0, 0]) - 4)
          (([0x00, 0x00, 0x00, 0x0D] @ Buffer_from ''IHDR'' @ hdata) @ [0, 0, 0, 0])
        = Inr (([0x00, 0x00, 0x00, 0x0D] @ Buffer_from ''IHDR'' @ hdata)
               @ u32be (crc32 (Buffer_from ''IHDR'' @ hdata)))"
    using crc32_range by (intro write_trailer) simp_all
  then show ?thesis
    by (simp add: ihdr_def Let_def Buffer_alloc_4 make_chunk_def len)
qed

lemma idat_closed:
  assumes "length compressedData \<le> 0xFFFFFFFF"
  shows "idat compressedData = Inr (make_chunk (Buffer_from ''IDAT'') compressedData)"
proof -
  define body where "body = Buffer_from ''IDAT'' @ compressedData"
  have first: "writeUInt32BE (int (length compressedData)) 0 ([0, 0, 0, 0] @ body @ [0, 0, 0, 0])
          = Inr (u32be (int (length compressedData)) @ body @ [0, 0, 0, 0])"
    using assms by (intro write_length) simp_all
  have "writeUInt32BE (crc32 body)
          (length ((u32be (int (length compressedData)) @ body) @ [0, 0, 0, 0]) - 4)
          ((u32be (int (length compressedData)) @ body) @ [0, 0, 0, 0])
        = Inr ((u32be (int (length compressedData)) @ body) @ u32be (crc32 body))"
    using crc32_range by (intro write_trailer) simp_all
  then have second: "writeUInt32BE (crc32 body)
          (length (u32be (int (length compressedData)) @ body @ [0, 0, 0, 0]) - 4)
          (u32be (int (length compressedData)) @ body @ [0, 0, 0, 0])
        = Inr (u32be (int (length compressedData)) @ body @ u32be (crc32 body))"
    by simp
  have "idat compressedData =
      (case writeUInt32BE (int (length compressedData)) 0 ([0, 0, 0, 0] @ body @ [0, 0, 0, 0]) of
         Inl e \<Rightarrow> Inl e
       | Inr idat1 \<Rightarrow> writeUInt32BE (crc32 body) (length idat1 - 4) idat1)"
    unfolding body_def by (simp add: idat_def Let_def Buffer_alloc_4)
  then show ?thesis
    unfolding first using second by (simp add: make_chunk_def body_def)
qed

lemma iend_closed: "iend = Inr (make_chunk (Buffer_from ''IEND'') [])"
proof -
  have "writeUInt32BE (crc32 (Buffer_from ''IEND''))
          (length (([0x00, 0x00, 0x00, 0x00] @ Buffer_from ''IEND'') @ [0, 0, 0, 0]) - 4)
          (([0x00, 0x00, 0x00, 0x00] @ Buffer_from ''IEND'') @ [0, 0, 0, 0])
        = Inr (([0x00, 0x00, 0x00, 0x00] @ Buffer_from ''IEND'')
               @ u32be (crc32 (Buffer_from ''IEND'')))"
    using crc32_range by (intro write_trailer) simp_all
  then show ?thesis
    by (simp add: iend_def Let_def Buffer_alloc_4 make_chunk_def u32be_def)
qed

lemma ihdrData_closed:
  assumes "width \<le> 0xFFFFFFFF" "height \<le> 0xFFFFFFFF"
  shows "ihdrData width height = Inr (u32be (int width) @ u32be (int height) @ [8, 2, 0, 0, 0])"
proof -
  have w: "writeUInt32BE (int width) 0 [0, 0, 0, 0, 0, 0, 0, 0, 0, 0, 0, 0, 0]
             = Inr (u32be (int width) @ [0, 0, 0, 0, 0, 0, 0, 0, 0])"
    using assms write_length[of "int width" "[0, 0, 0, 0, 0, 0, 0, 0, 0]"] by simp
  have "writeUInt32BE (int height) (length (u32be (int width)))
             (u32be (int width) @ [0, 0, 0, 0, 0, 0, 0, 0, 0])
          = Inr (take (length (u32be (int width))) (u32be (int width) @ [0, 0, 0, 0, 0, 0, 0, 0, 0])
                 @ u32be (int height)
                 @ drop (length (u32be (int width)) + 4) (u32be (int width) @ [0, 0, 0, 0, 0, 0, 0, 0, 0]))"
    using assms by (intro writeUInt32BE_ok) simp_all
  then have h: "writeUInt32BE (int height) 4 (u32be (int width) @ [0, 0, 0, 0, 0, 0, 0, 0, 0])
          = Inr (u32be (int width) @ u32be (int height) @ [0, 0, 0, 0, 0])"
    by (simp add: length_u32be)
  show ?thesis
    unfolding ihdrData_def Buffer_alloc_13 sum.case w h
    by (simp add: u32be_def writeUInt8_ok)
qed

text \<open>
  C6: each of the three chunks that \<open>generatePNG\<close> assembles (\<open>ihdr\<close> from the 13 header
  bytes, \<open>idat\<close> from the compressed bytes, \<open>iend\<close> with no payload) is the payload length
  as four big-endian bytes, the tag, the payload, and the CRC-32 of tag and payload as
  four big-endian bytes; the length field is not part of the checksummed bytes.
\<close>

theorem chunk_layout:
  assumes "length hdata = 13" "length compressedData \<le> 0xFFFFFFFF"
  shows "ihdr hdata =
           Inr (u32be (int (length hdata)) @ Buffer_from ''IHDR'' @ hdata
                @ u32be (crc32 (Buffer_from ''IHDR'' @ hdata)))
       \<and> idat compressedData =
           Inr (u32be (int (length compressedData)) @ Buffer_from ''IDAT'' @ compressedData
                @ u32be (crc32 (Buffer_from ''IDAT'' @ compressedData)))
       \<and> iend =
           Inr (u32be 0 @ Buffer_from ''IEND'' @ [] @ u32be (crc32 (Buffer_from ''IEND'' @ [])))"
  using ihdr_closed[OF assms(1)] idat_closed[OF assms(2)] iend_closed
  by (simp add: make_chunk_def)

theorem chunk_layout_witness:
  "length [0, 0, 0, 2, 0, 0, 0, 2, 8, 2, 0, 0, 0 :: byte] = 13 \<and>
   length [0x78, 0x01, 0x00, 0x00, 0x00, 0x01 :: byte] \<le> 0xFFFFFFFF \<and>
   ihdr [0, 0, 0, 2, 0, 0, 0, 2, 8, 2, 0, 0, 0] =
     Inr ([0, 0, 0, 13] @ [0x49, 0x48, 0x44, 0x52] @ [0, 0, 0, 2, 0, 0, 0, 2, 8, 2, 0, 0, 0]
          @ u32be (crc32 ([0x49, 0x48, 0x44, 0x52] @ [0, 0, 0, 2, 0, 0, 0, 2, 8, 2, 0, 0, 0]))) \<and>
   idat [0x78, 0x01, 0x00, 0x00, 0x00, 0x01] =
     Inr ([0, 0, 0, 6] @ [0x49, 0x44, 0x41, 0x54] @ [0x78, 0x01, 0x00, 0x00, 0x00, 0x01]
          @ u32be (crc32 ([0x49, 0x44, 0x41, 0x54] @ [0x78, 0x01, 0x00, 0x00, 0x00, 0x01]))) \<and>
   iend = Inr ([0, 0, 0, 0] @ [0x49, 0x45, 0x4E, 0x44] @ u32be (crc32 [0x49, 0x45, 0x4E, 0x44]))"
  using chunk_layout[of "[0, 0, 0, 2, 0, 0, 0, 2, 8, 2, 0, 0, 0]"
                        "[0x78, 0x01, 0x00, 0x00, 0x00, 0x01]"]
  by (simp add: Buffer_from_IHDR Buffer_from_IDAT Buffer_from_IEND u32be_def)

section \<open>generatePNG as a whole\<close>

lemma length_stored_blocks:
  "length (stored_blocks bss) = 5 * length bss + length (concat bss)"
  by (induction bss rule: stored_blocks.induct) (simp_all add: stored_block_def u16le_def)

lemma deflateData_length:
  assumes "deflateData data = Inr c"
  shows "length c \<le> 6 * length data + 11"
proof (cases "data = []")
  case True
  then show ?thesis
    using assms by (auto simp: deflateData_closed length_u32be split: if_splits)
next
  case False
  then have "0 < length data" by simp
  then have "(length data + 65534) div 65535 \<le> length data"
    by (simp add: div_le_mono2 less_eq_div_iff_mult_less_eq)
  then have "length (stored_blocks (split_blocks data)) \<le> 6 * length data"
    using False by (simp add: length_stored_blocks length_split_blocks concat_split_blocks)
  then show ?thesis
    using assms False by (auto simp: deflateData_closed length_u32be split: if_splits)
qed

lemma generatePNG_closed:
  assumes "width \<le> 0xFFFFFFFF" "height \<le> 0xFFFFFFFF"
      and "height * (1 + width * 3) \<le> 50335744"
  shows "generatePNG width height color =
     (case hexToRgb color of (r, g, b) \<Rightarrow>
        case deflateData (scanlines width height (toUint8 r) (toUint8 g) (toUint8 b)) of
          Inl e \<Rightarrow> Inl e
        | Inr c \<Rightarrow>
            Inr (signature
                 @ make_chunk (Buffer_from ''IHDR'')
                     (u32be (int width) @ u32be (int height) @ [8, 2, 0, 0, 0])
                 @ make_chunk (Buffer_from ''IDAT'') c
                 @ make_chunk (Buffer_from ''IEND'') []))"
proof -
  obtain r g b where rgb: "hexToRgb color = (r, g, b)"
    by (cases "hexToRgb color") auto
  define img where "img = scanlines width height (toUint8 r) (toUint8 g) (toUint8 b)"
  define hdata where "hdata = u32be (int width) @ u32be (int height) @ [8, 2, 0, 0, 0 :: byte]"
  have hd: "ihdrData width height = Inr hdata"
    unfolding hdata_def using assms(1,2) by (rule ihdrData_closed)
  have "length hdata = 13" by (simp add: hdata_def length_u32be)
  then have ih: "ihdr hdata = Inr (make_chunk (Buffer_from ''IHDR'') hdata)"
    by (rule ihdr_closed)
  have "height * (1 + width * 3) \<le> kMaxLength"
    using assms(3) by (simp add: kMaxLength_def)
  then have im: "imageData width height r g b = Inr img"
    unfolding img_def by (rule imageData_closed)
  have len: "length img \<le> 50335744"
    using assms(3) by (simp add: img_def length_scanlines)
  show ?thesis
  proof (cases "deflateData img")
    case (Inl e)
    then show ?thesis
      by (simp add: generatePNG_def rgb hd ih im img_def[symmetric])
  next
    case (Inr c)
    have "length c \<le> 6 * length img + 11"
      using Inr by (rule deflateData_length)
    then have "length c \<le> 0xFFFFFFFF" using len by simp
    then have "idat c = Inr (make_chunk (Buffer_from ''IDAT'') c)"
      by (rule idat_closed)
    then show ?thesis
      using Inr
      by (simp add: generatePNG_def rgb hd ih im img_def[symmetric] iend_closed
                    hdata_def[symmetric])
  qed
qed

lemma be32_digits:
  fixes v :: int
  assumes "0 \<le> v" "v \<le> 0xFFFFFFFF"
  shows "(v div 16777216) mod 256 * 16777216 + (v div 65536) mod 256 * 65536
        + (v div 256) mod 256 * 256 + v mod 256 = v"
proof -
  define v1 where "v1 = v div 256"
  define v2 where "v2 = v1 div 256"
  define v3 where "v3 = v2 div 256"
  have d2: "v div 65536 = v2"
    unfolding v2_def v1_def by (simp add: zdiv_zmult2_eq[symmetric])
  have d3: "v div 16777216 = v3"
    unfolding v3_def v2_def v1_def by (simp add: zdiv_zmult2_eq[symmetric])
  have "v3 < 256" "0 \<le> v3"
    using assms unfolding d3[symmetric] by simp_all
  then have m3: "v3 mod 256 = v3" by simp
  have e0: "v = v1 * 256 + v mod 256" unfolding v1_def by simp
  have e1: "v1 = v2 * 256 + v1 mod 256" unfolding v2_def by simp
  have e2: "v2 = v3 * 256 + v2 mod 256" unfolding v3_def by simp
  define m0 where "m0 = v mod 256"
  define m1 where "m1 = v1 mod 256"
  define m2 where "m2 = v2 mod 256"
  have "v3 * 16777216 + m2 * 65536 + m1 * 256 + m0 = v"
    using e0 e1 e2 unfolding m0_def[symmetric] m1_def[symmetric] m2_def[symmetric]
    by linarith
  then show ?thesis
    unfolding d2 d3 m3 v1_def[symmetric] m0_def m1_def m2_def .
qed

lemma decode_u32be_u32be:
  assumes "0 \<le> v" "v \<le> 0xFFFFFFFF"
  shows "decode_u32be (u32be v) = v"
proof -
  have b: "uint (word_of_int k :: byte) = k mod 256" for k
    by (simp add: uint_word_of_int)
  have "decode_u32be (u32be v) =
      (v div 16777216) mod 256 * 16777216 + (v div 65536) mod 256 * 65536
        + (v div 256) mod 256 * 256 + v mod 256"
    unfolding decode_u32be_def u32be_def by (simp add: b)
  also have "\<dots> = v"
    using assms by (rule be32_digits)
  finally show ?thesis .
qed

section \<open>Evaluating crc32\<close>

lemma funpow8: "(f ^^ 8) x = f (f (f (f (f (f (f (f x)))))))"
  by (simp add: numeral_eq_Suc)

lemma crcTable_nth: "i < 256 \<Longrightarrow> crcTable ! i = (crc_step ^^ 8) (word_of_nat i)"
  unfolding crcTable_def by (simp del: upt_Suc)

lemma crc32_IEND: "crc32 [0x49, 0x45, 0x4E, 0x44] = 0xAE426082"
  by (simp add: crc32_def crcTable_nth crc_step_def funpow8)

lemma crc32_IHDR_0x1:
  "crc32 [0x49, 0x48, 0x44, 0x52, 0, 0, 0, 0, 0, 0, 0, 1, 8, 2, 0, 0, 0] = 0x7FB538E0"
  by (simp add: crc32_def crcTable_nth crc_step_def funpow8)

lemma crc32_IDAT_0x1:
  "crc32 [0x49, 0x44, 0x41, 0x54, 0x78, 0x01, 0x01, 0x01, 0x00, 0xFE, 0xFF, 0x00,
          0x00, 0x01, 0x00, 0x01] = 0xF78D0151"
  by (simp add: crc32_def crcTable_nth crc_step_def funpow8)

section \<open>The file as a whole\<close>

text \<open>
  Whenever \<open>generatePNG\<close> returns for valid dimensions, the result is the signature and
  the three chunks in order, and the width and height read back from the header chunk.
\<close>

lemma generatePNG_layout:
  assumes "1 \<le> width" "width \<le> 4096" "1 \<le> height" "height \<le> 4096"
      and "generatePNG width height color = Inr out"
  shows "\<exists>c. out = signature
                 @ make_chunk (Buffer_from ''IHDR'')
                     (u32be (int width) @ u32be (int height) @ [8, 2, 0, 0, 0])
                 @ make_chunk (Buffer_from ''IDAT'') c
                 @ make_chunk (Buffer_from ''IEND'') []"
    and "decode_u32be (take 4 (drop 16 out)) = int width"
    and "decode_u32be (take 4 (drop 20 out)) = int height"
proof -
  obtain r g b where rgb: "hexToRgb color = (r, g, b)"
    by (cases "hexToRgb color") auto
  have "height * (1 + width * 3) \<le> 4096 * (1 + 4096 * 3)"
    using assms(2,4) by (intro mult_le_mono add_le_mono) simp_all
  then have fits: "height * (1 + width * 3) \<le> 50335744" by simp
  have w: "width \<le> 0xFFFFFFFF" and h: "height \<le> 0xFFFFFFFF"
    using assms(2,4) by simp_all
  from generatePNG_closed[OF w h fits, of color] assms(5)
  obtain c where out: "out = signature
                 @ make_chunk (Buffer_from ''IHDR'')
                     (u32be (int width) @ u32be (int height) @ [8, 2, 0, 0, 0])
                 @ make_chunk (Buffer_from ''IDAT'') c
                 @ make_chunk (Buffer_from ''IEND'') []"
    by (auto simp: rgb split: sum.splits)
  then show "\<exists>c. out = signature
                 @ make_chunk (Buffer_from ''IHDR'')
                     (u32be (int width) @ u32be (int height) @ [8, 2, 0, 0, 0])
                 @ make_chunk (Buffer_from ''IDAT'') c
                 @ make_chunk (Buffer_from ''IEND'') []"
    by blast
  define P where "P = signature @ [0, 0, 0, 13] @ Buffer_from ''IHDR''"
  define W where "W = u32be (int width)"
  define H where "H = u32be (int height)"
  obtain R where pre: "out = P @ W @ H @ R"
    unfolding out P_def W_def H_def by (simp add: make_chunk_def u32be_def)
  have lens: "length P = 16" "length W = 4" "length H = 4"
    by (simp_all add: P_def W_def H_def signature_def Buffer_from_IHDR length_u32be)
  have "take 4 (drop 16 out) = W"
    unfolding pre using lens by simp
  then show "decode_u32be (take 4 (drop 16 out)) = int width"
    unfolding W_def using w by (simp add: decode_u32be_u32be)
  have "take 4 (drop 20 out) = H"
    unfolding pre using lens by simp
  then show "decode_u32be (take 4 (drop 20 out)) = int height"
    unfolding H_def using h by (simp add: decode_u32be_u32be)
qed

lemma hexToRgb_white: "hexToRgb ''#ffffff'' = (Some 255, Some 255, Some 255)"
  by (simp add: hexToRgb_def parseInt16_def substr_def hexDigit_def isWhiteSpace_def Let_def
           cong: let_weak_cong)

lemma scanlines_6x1_white:
  "scanlines 6 1 0xFF 0xFF 0xFF =
     [0, 0xFF, 0xFF, 0xFF, 0xFF, 0xFF, 0xFF, 0xFF, 0xFF, 0xFF, 0xFF,
      0xFF, 0xFF, 0xFF, 0xFF, 0xFF, 0xFF, 0xFF, 0xFF]"
  by (simp add: scanlines_def scanline_def numeral_eq_Suc)

lemma adler32_loop_6x1_white:
  "adler32_loop 1 0 [0, 0xFF, 0xFF, 0xFF, 0xFF, 0xFF, 0xFF, 0xFF, 0xFF, 0xFF, 0xFF,
      0xFF, 0xFF, 0xFF, 0xFF, 0xFF, 0xFF, 0xFF, 0xFF] = (4591, 43624)"
  by (simp add: adler32_loop_Cons adler32_loop.simps(1))

lemma adler32_6x1_white:
  "adler32 [0, 0xFF, 0xFF, 0xFF, 0xFF, 0xFF, 0xFF, 0xFF, 0xFF, 0xFF, 0xFF,
      0xFF, 0xFF, 0xFF, 0xFF, 0xFF, 0xFF, 0xFF, 0xFF] = - 1436020241"
  unfolding adler32_def adler32_loop_6x1_white by simp

text \<open>
  C7: for the valid call \<open>generatePNG(6, 1, '#ffffff')\<close> no byte sequence is returned:
  the scanline buffer is a 0 and eighteen bytes \<open>0xFF\<close>, its \<open>adler32\<close> is negative,
  and \<open>deflateData\<close> throws.
\<close>

theorem generatePNG_throws:
  "generatePNG 6 1 ''#ffffff'' = Inl RangeError"
proof -
  have "deflateData (scanlines 6 1 0xFF 0xFF 0xFF) = Inl RangeError"
    unfolding scanlines_6x1_white by (simp add: deflateData_closed adler32_6x1_white)
  moreover have "generatePNG 6 1 ''#ffffff'' =
      (case deflateData (scanlines 6 1 (toUint8 (Some 255)) (toUint8 (Some 255)) (toUint8 (Some 255))) of
          Inl e \<Rightarrow> Inl e
        | Inr c \<Rightarrow>
            Inr (signature
                 @ make_chunk (Buffer_from ''IHDR'') (u32be (int 6) @ u32be (int 1) @ [8, 2, 0, 0, 0])
                 @ make_chunk (Buffer_from ''IDAT'') c
                 @ make_chunk (Buffer_from ''IEND'') []))"
    using generatePNG_closed[of 6 1 "''#ffffff''"] by (simp add: hexToRgb_white)
  ultimately show ?thesis by (simp add: toUint8_def)
qed

section \<open>Where the dimensions are validated\<close>

lemma scanlines_0x1: "scanlines 0 1 r g b = [0]"
  by (simp add: scanlines_def scanline_def)

lemma adler32_single_zero: "adler32 [0] = 65537"
  by (simp add: adler32_def adler32_loop_Cons adler32_loop.simps(1))

lemma deflateData_single_zero:
  "deflateData [0] =
     Inr [0x78, 0x01, 0x01, 0x01, 0x00, 0xFE, 0xFF, 0x00, 0x00, 0x01, 0x00, 0x01]"
  by (simp add: deflateData_closed adler32_single_zero split_blocks_single stored_block_def
        u16le_def u32be_def)

text \<open>
  C9, as stated, fails on the code: called with width 0, \<open>generatePNG\<close> does not fail; it
  returns a complete file whose header declares width 0.
\<close>

theorem generatePNG_accepts_width_0:
  "generatePNG 0 1 ''#ff0000'' =
     Inr [0x89, 0x50, 0x4E, 0x47, 0x0D, 0x0A, 0x1A, 0x0A,
          0x00, 0x00, 0x00, 0x0D, 0x49, 0x48, 0x44, 0x52,
          0x00, 0x00, 0x00, 0x00, 0x00, 0x00, 0x00, 0x01, 0x08, 0x02, 0x00, 0x00, 0x00,
          0x7F, 0xB5, 0x38, 0xE0,
          0x00, 0x00, 0x00, 0x0C, 0x49, 0x44, 0x41, 0x54,
          0x78, 0x01, 0x01, 0x01, 0x00, 0xFE, 0xFF, 0x00, 0x00, 0x01, 0x00, 0x01,
          0xF7, 0x8D, 0x01, 0x51,
          0x00, 0x00, 0x00, 0x00, 0x49, 0x45, 0x4E, 0x44, 0xAE, 0x42, 0x60, 0x82]"
proof -
  have "generatePNG 0 1 ''#ff0000'' =
      (case deflateData (scanlines 0 1 (toUint8 (Some 255)) (toUint8 (Some 0)) (toUint8 (Some 0))) of
          Inl e \<Rightarrow> Inl e
        | Inr c \<Rightarrow>
            Inr (signature
                 @ make_chunk (Buffer_from ''IHDR'') (u32be (int 0) @ u32be (int 1) @ [8, 2, 0, 0, 0])
                 @ make_chunk (Buffer_from ''IDAT'') c
                 @ make_chunk (Buffer_from ''IEND'') []))"
    using generatePNG_closed[of 0 1 "''#ff0000''"] by (simp add: hexToRgb_red)
  then show ?thesis
    unfolding scanlines_0x1 deflateData_single_zero
    by (simp add: make_chunk_def signature_def Buffer_from_IHDR Buffer_from_IDAT Buffer_from_IEND
          crc32_IEND crc32_IHDR_0x1 crc32_IDAT_0x1 u32be_def)
qed

section \<open>crc32 against the bitwise definition\<close>

lemma crc_step_eq_shift: "crc_step c = crc32_shift c"
proof -
  have "c AND 1 \<noteq> 0 \<longleftrightarrow> bit c 0"
    by (simp add: and_one_eq bit_0 mod_2_eq_odd)
  then show ?thesis
    by (simp add: crc_step_def crc32_shift_def xor.commute)
qed

lemma crc_step_is_shift: "crc_step = crc32_shift"
  by (rule ext) (rule crc_step_eq_shift)

lemma crc32_shift_xor: "crc32_shift (x XOR y) = crc32_shift x XOR crc32_shift y"
  by (simp add: crc32_shift_def bit_xor_iff ac_simps)

lemma crc32_shift_funpow_xor:
  "(crc32_shift ^^ n) (x XOR y) = (crc32_shift ^^ n) x XOR (crc32_shift ^^ n) y"
  by (induction n) (simp_all add: crc32_shift_xor)

lemma crc32_shift_high:
  "take_bit n y = 0 \<Longrightarrow> (crc32_shift ^^ n) y = drop_bit n y"
proof (induction n arbitrary: y)
  case 0
  then show ?case by simp
next
  case (Suc n)
  have "\<not> bit (take_bit (Suc n) y) 0" using Suc.prems by simp
  then have nb: "\<not> bit y 0" by (simp add: bit_take_bit_iff)
  have "take_bit n (drop_bit 1 y) = drop_bit 1 (take_bit (Suc n) y)"
    by (simp add: drop_bit_take_bit)
  then have "take_bit n (drop_bit 1 y) = 0" using Suc.prems by simp
  then have "(crc32_shift ^^ n) (drop_bit 1 y) = drop_bit n (drop_bit 1 y)"
    by (rule Suc.IH)
  moreover have "crc32_shift y = drop_bit 1 y"
    using nb by (simp add: crc32_shift_def)
  ultimately show ?case
    by (simp add: funpow_swap1)
qed

lemma split_low_byte:
  fixes x :: "32 word"
  shows "x = (x AND 0xFF) XOR push_bit 8 (drop_bit 8 x)"
proof -
  have "x AND 0xFF = take_bit 8 x"
    by (simp add: take_bit_eq_mask mask_eq_exp_minus_1)
  moreover have "x = take_bit 8 x XOR push_bit 8 (drop_bit 8 x)"
    by (rule bit_eqI) (auto simp: bit_simps)
  ultimately show ?thesis by simp
qed

lemma crc32_byte_by_table:
  fixes x :: "32 word"
  shows "(crc32_shift ^^ 8) x = crcTable ! unat (x AND 0xFF) XOR drop_bit 8 x"
proof -
  have "x AND 0xFF \<le> 0xFF" by (rule word_and_le1)
  then have "unat (x AND 0xFF) \<le> unat (0xFF :: 32 word)" by (simp add: word_le_nat_alt)
  then have idx: "unat (x AND 0xFF) < 256" by simp
  have tbl: "crcTable ! unat (x AND 0xFF) = (crc32_shift ^^ 8) (x AND 0xFF)"
    using idx by (simp add: crcTable_nth crc_step_is_shift)
  have hi_dropped: "drop_bit 8 (push_bit 8 (drop_bit 8 x)) = drop_bit 8 x"
    by (rule bit_eqI) (auto simp: bit_simps dest: bit_imp_le_length)
  have "take_bit 8 (push_bit 8 (drop_bit 8 x)) = 0"
    by (simp add: take_bit_push_bit)
  then have hi: "(crc32_shift ^^ 8) (push_bit 8 (drop_bit 8 x)) = drop_bit 8 (push_bit 8 (drop_bit 8 x))"
    by (rule crc32_shift_high)
  have "(crc32_shift ^^ 8) x
          = (crc32_shift ^^ 8) ((x AND 0xFF) XOR push_bit 8 (drop_bit 8 x))"
    using split_low_byte[of x] by simp
  also have "\<dots> = (crc32_shift ^^ 8) (x AND 0xFF) XOR drop_bit 8 x"
    unfolding crc32_shift_funpow_xor hi hi_dropped by simp
  finally show ?thesis using tbl by simp
qed

lemma crc32_loop_bitwise: "crc32_loop crc data = foldl crc32_byte crc data"
proof (induction data arbitrary: crc)
  case Nil
  then show ?case by simp
next
  case (Cons d data)
  have "drop_bit 8 (ucast d :: 32 word) = 0"
    by (rule bit_eqI) (auto simp: bit_simps dest: bit_imp_le_length)
  then have "drop_bit 8 (crc XOR ucast d) = drop_bit 8 crc"
    by simp
  then have "crcTable ! unat ((crc XOR ucast d) AND 0xFF) XOR drop_bit 8 crc = crc32_byte crc d"
    using crc32_byte_by_table[of "crc XOR ucast d"] by (simp add: crc32_byte_def)
  then show ?case using Cons.IH by simp
qed

text \<open>
  C5: \<open>crc32\<close>, which looks each byte up in the table it builds, computes the reflected
  CRC-32 with polynomial \<open>0xEDB88320\<close>, register initialised to all ones and inverted
  at the end; on the empty sequence it gives 0.
\<close>

theorem crc32_is_reference:
  "crc32 data = crc32_reference data \<and> crc32 [] = 0"
proof -
  have ones: "(0xFFFFFFFF :: 32 word) = - 1" by simp
  have inv: "x XOR - 1 = NOT x" for x :: "32 word"
    by (rule bit_eqI) (simp add: bit_simps)
  have "crc32 data = crc32_reference data"
    unfolding crc32_def crc32_reference_def crc32_loop_bitwise ones inv by simp
  moreover have "crc32 [] = 0" by (simp add: crc32_def)
  ultimately show ?thesis by (rule conjI)
qed

text \<open>The reference gives the published check value for the ASCII digits 1 to 9.\<close>

lemma crc32_reference_check:
  "crc32_reference [0x31, 0x32, 0x33, 0x34, 0x35, 0x36, 0x37, 0x38, 0x39] = 0xCBF43926"
  by (simp add: crc32_reference_def crc32_byte_def crc32_shift_def funpow8)

lemma upt_256:
  "[0..<256] =
     [0x00, 0x01, 0x02, 0x03, 0x04, 0x05, 0x06, 0x07, 0x08, 0x09, 0x0A, 0x0B,
      0x0C, 0x0D, 0x0E, 0x0F, 0x10, 0x11, 0x12, 0x13, 0x14, 0x15, 0x16, 0x17,
      0x18, 0x19, 0x1A, 0x1B, 0x1C, 0x1D, 0x1E, 0x1F, 0x20, 0x21, 0x22, 0x23,
      0x24, 0x25, 0x26, 0x27, 0x28, 0x29, 0x2A, 0x2B, 0x2C, 0x2D, 0x2E, 0x2F,
      0x30, 0x31, 0x32, 0x33, 0x34, 0x35, 0x36, 0x37, 0x38, 0x39, 0x3A, 0x3B,
      0x3C, 0x3D, 0x3E, 0x3F, 0x40, 0x41, 0x42, 0x43, 0x44, 0x45, 0x46, 0x47,
      0x48, 0x49, 0x4A, 0x4B, 0x4C, 0x4D, 0x4E, 0x4F, 0x50, 0x51, 0x52, 0x53,
      0x54, 0x55, 0x56, 0x57, 0x58, 0x59, 0x5A, 0x5B, 0x5C, 0x5D, 0x5E, 0x5F,
      0x60, 0x61, 0x62, 0x63, 0x64, 0x65, 0x66, 0x67, 0x68, 0x69, 0x6A, 0x6B,
      0x6C, 0x6D, 0x6E, 0x6F, 0x70, 0x71, 0x72, 0x73, 0x74, 0x75, 0x76, 0x77,
      0x78, 0x79, 0x7A, 0x7B, 0x7C, 0x7D, 0x7E, 0x7F, 0x80, 0x81, 0x82, 0x83,
      0x84, 0x85, 0x86, 0x87, 0x88, 0x89, 0x8A, 0x8B, 0x8C, 0x8D, 0x8E, 0x8F,
      0x90, 0x91, 0x92, 0x93, 0x94, 0x95, 0x96, 0x97, 0x98, 0x99, 0x9A, 0x9B,
      0x9C, 0x9D, 0x9E, 0x9F, 0xA0, 0xA1, 0xA2, 0xA3, 0xA4, 0xA5, 0xA6, 0xA7,
      0xA8, 0xA9, 0xAA, 0xAB, 0xAC, 0xAD, 0xAE, 0xAF, 0xB0, 0xB1, 0xB2, 0xB3,
      0xB4, 0xB5, 0xB6, 0xB7, 0xB8, 0xB9, 0xBA, 0xBB, 0xBC, 0xBD, 0xBE, 0xBF,
      0xC0, 0xC1, 0xC2, 0xC3, 0xC4, 0xC5, 0xC6, 0xC7, 0xC8, 0xC9, 0xCA, 0xCB,
      0xCC, 0xCD, 0xCE, 0xCF, 0xD0, 0xD1, 0xD2, 0xD3, 0xD4, 0xD5, 0xD6, 0xD7,
      0xD8, 0xD9, 0xDA, 0xDB, 0xDC, 0xDD, 0xDE, 0xDF, 0xE0, 0xE1, 0xE2, 0xE3,
      0xE4, 0xE5, 0xE6, 0xE7, 0xE8, 0xE9, 0xEA, 0xEB, 0xEC, 0xED, 0xEE, 0xEF,
      0xF0, 0xF1, 0xF2, 0xF3, 0xF4, 0xF5, 0xF6, 0xF7, 0xF8, 0xF9, 0xFA, 0xFB,
      0xFC, 0xFD, 0xFE, 0xFF]"
  by code_simp

text \<open>
  The table that \<open>crc32\<close> builds on every call is the table of 256 constants that
  table-driven CRC-32 implementations carry.
\<close>

lemma crcTable_standard:
  "crcTable =
     [0x00000000, 0x77073096, 0xEE0E612C, 0x990951BA, 0x076DC419, 0x706AF48F,
      0xE963A535, 0x9E6495A3, 0x0EDB8832, 0x79DCB8A4, 0xE0D5E91E, 0x97D2D988,
      0x09B64C2B, 0x7EB17CBD, 0xE7B82D07, 0x90BF1D91, 0x1DB71064, 0x6AB020F2,
      0xF3B97148, 0x84BE41DE, 0x1ADAD47D, 0x6DDDE4EB, 0xF4D4B551, 0x83D385C7,
      0x136C9856, 0x646BA8C0, 0xFD62F97A, 0x8A65C9EC, 0x14015C4F, 0x63066CD9,
      0xFA0F3D63, 0x8D080DF5, 0x3B6E20C8, 0x4C69105E, 0xD56041E4, 0xA2677172,
      0x3C03E4D1, 0x4B04D447, 0xD20D85FD, 0xA50AB56B, 0x35B5A8FA, 0x42B2986C,
      0xDBBBC9D6, 0xACBCF940, 0x32D86CE3, 0x45DF5C75, 0xDCD60DCF, 0xABD13D59,
      0x26D930AC, 0x51DE003A, 0xC8D75180, 0xBFD06116, 0x21B4F4B5, 0x56B3C423,
      0xCFBA9599, 0xB8BDA50F, 0x2802B89E, 0x5F058808, 0xC60CD9B2, 0xB10BE924,
      0x2F6F7C87, 0x58684C11, 0xC1611DAB, 0xB6662D3D, 0x76DC4190, 0x01DB7106,
      0x98D220BC, 0xEFD5102A, 0x71B18589, 0x06B6B51F, 0x9FBFE4A5, 0xE8B8D433,
      0x7807C9A2, 0x0F00F934, 0x9609A88E, 0xE10E9818, 0x7F6A0DBB, 0x086D3D2D,
      0x91646C97, 0xE6635C01, 0x6B6B51F4, 0x1C6C6162, 0x856530D8, 0xF262004E,
      0x6C0695ED, 0x1B01A57B, 0x8208F4C1, 0xF50FC457, 0x65B0D9C6, 0x12B7E950,
      0x8BBEB8EA, 0xFCB9887C, 0x62DD1DDF, 0x15DA2D49, 0x8CD37CF3, 0xFBD44C65,
      0x4DB26158, 0x3AB551CE, 0xA3BC0074, 0xD4BB30E2, 0x4ADFA541, 0x3DD895D7,
      0xA4D1C46D, 0xD3D6F4FB, 0x4369E96A, 0x346ED9FC, 0xAD678846, 0xDA60B8D0,
      0x44042D73, 0x33031DE5, 0xAA0A4C5F, 0xDD0D7CC9, 0x5005713C, 0x270241AA,
      0xBE0B1010, 0xC90C2086, 0x5768B525, 0x206F85B3, 0xB966D409, 0xCE61E49F,
      0x5EDEF90E, 0x29D9C998, 0xB0D09822, 0xC7D7A8B4, 0x59B33D17, 0x2EB40D81,
      0xB7BD5C3B, 0xC0BA6CAD, 0xEDB88320, 0x9ABFB3B6, 0x03B6E20C, 0x74B1D29A,
      0xEAD54739, 0x9DD277AF, 0x04DB2615, 0x73DC1683, 0xE3630B12, 0x94643B84,
      0x0D6D6A3E, 0x7A6A5AA8, 0xE40ECF0B, 0x9309FF9D, 0x0A00AE27, 0x7D079EB1,
      0xF00F9344, 0x8708A3D2, 0x1E01F268, 0x6906C2FE, 0xF762575D, 0x806567CB,
      0x196C3671, 0x6E6B06E7, 0xFED41B76, 0x89D32BE0, 0x10DA7A5A, 0x67DD4ACC,
      0xF9B9DF6F, 0x8EBEEFF9, 0x17B7BE43, 0x60B08ED5, 0xD6D6A3E8, 0xA1D1937E,
      0x38D8C2C4, 0x4FDFF252, 0xD1BB67F1, 0xA6BC5767, 0x3FB506DD, 0x48B2364B,
      0xD80D2BDA, 0xAF0A1B4C, 0x36034AF6, 0x41047A60, 0xDF60EFC3, 0xA867DF55,
      0x316E8EEF, 0x4669BE79, 0xCB61B38C, 0xBC66831A, 0x256FD2A0, 0x5268E236,
      0xCC0C7795, 0xBB0B4703, 0x220216B9, 0x5505262F, 0xC5BA3BBE, 0xB2BD0B28,
      0x2BB45A92, 0x5CB36A04, 0xC2D7FFA7, 0xB5D0CF31, 0x2CD99E8B, 0x5BDEAE1D,
      0x9B64C2B0, 0xEC63F226, 0x756AA39C, 0x026D930A, 0x9C0906A9, 0xEB0E363F,
      0x72076785, 0x05005713, 0x95BF4A82, 0xE2B87A14, 0x7BB12BAE, 0x0CB61B38,
      0x92D28E9B, 0xE5D5BE0D, 0x7CDCEFB7, 0x0BDBDF21, 0x86D3D2D4, 0xF1D4E242,
      0x68DDB3F8, 0x1FDA836E, 0x81BE16CD, 0xF6B9265B, 0x6FB077E1, 0x18B74777,
      0x88085AE6, 0xFF0F6A70, 0x66063BCA, 0x11010B5C, 0x8F659EFF, 0xF862AE69,
      0x616BFFD3, 0x166CCF45, 0xA00AE278, 0xD70DD2EE, 0x4E048354, 0x3903B3C2,
      0xA7672661, 0xD06016F7, 0x4969474D, 0x3E6E77DB, 0xAED16A4A, 0xD9D65ADC,
      0x40DF0B66, 0x37D83BF0, 0xA9BCAE53, 0xDEBB9EC5, 0x47B2CF7F, 0x30B5FFE9,
      0xBDBDF21C, 0xCABAC28A, 0x53B39330, 0x24B4A3A6, 0xBAD03605, 0xCDD70693,
      0x54DE5729, 0x23D967BF, 0xB3667A2E, 0xC4614AB8, 0x5D681B02, 0x2A6F2B94,
      0xB40BBE37, 0xC30C8EA1, 0x5A05DF1B, 0x2D02EF8D]"
  unfolding crcTable_def upt_256 list.map
  by (simp add: funpow8 crc_step_def)

section \<open>Rounding to doubles\<close>

lemma finite_doubles: "finite doubles"
  unfolding doubles_def by (intro finite_imageI finite_cartesian_product) simp_all

lemma doublesI:
  "\<bar>m\<bar> < 2 ^ 53 \<Longrightarrow> a \<le> 971 \<Longrightarrow> b \<le> 1074 \<Longrightarrow> x = of_int m * 2 ^ a / 2 ^ b \<Longrightarrow> x \<in> doubles"
  unfolding doubles_def by (intro image_eqI[where x = "(m, a, b)"]) auto

lemma nat_in_doubles: "n < 2 ^ 53 \<Longrightarrow> of_nat n \<in> doubles"
  by (rule doublesI[where m = "int n" and a = 0 and b = 0]) simp_all

lemma doubles_nonempty: "doubles \<noteq> {}"
  using nat_in_doubles[of 0] by auto

lemma fl_nearest: "r \<in> doubles \<Longrightarrow> \<bar>fl x - x\<bar> \<le> \<bar>r - x\<bar>"
  unfolding fl_def by (rule arg_min_least[OF finite_doubles doubles_nonempty])

lemma fl_exact: "x \<in> doubles \<Longrightarrow> fl x = x"
  using fl_nearest[of x x] by simp





lemma fl_of_nat: "n < 2 ^ 53 \<Longrightarrow> fl (of_nat n) = of_nat n"
  by (rule fl_exact) (rule nat_in_doubles)

lemma rounded_small:
  assumes "0 \<le> x" "x \<le> 2 ^ 64"
  shows "rounded x = Finite (fl x)"
proof -
  have "(2 :: rat) ^ 64 < 2 ^ 1024 - 2 ^ 970" by simp
  then show ?thesis using assms by (simp add: rounded_def)
qed

section \<open>Integer arguments: the numbers are exact\<close>

lemma js_times_nat:
  assumes "a * b < 2 ^ 53"
  shows "js_times (Finite (of_nat a)) (Finite (of_nat b)) = Finite (of_nat (a * b))"
proof -
  have "(of_nat (a * b) :: rat) \<le> 2 ^ 64"
  proof -
    have "a * b \<le> 2 ^ 64" using assms by simp
    then have "(of_nat (a * b) :: rat) \<le> of_nat (2 ^ 64)" by (simp only: of_nat_le_iff)
    then show ?thesis by simp
  qed
  then have "rounded (of_nat (a * b)) = Finite (fl (of_nat (a * b)))"
    by (intro rounded_small) simp_all
  then show ?thesis using assms fl_of_nat[of "a * b"] by (simp add: js_times.simps)
qed

lemma js_plus_nat:
  assumes "a + b < 2 ^ 53"
  shows "js_plus (Finite (of_nat a)) (Finite (of_nat b)) = Finite (of_nat (a + b))"
proof -
  have "(of_nat (a + b) :: rat) \<le> 2 ^ 64"
  proof -
    have "a + b \<le> 2 ^ 64" using assms by simp
    then have "(of_nat (a + b) :: rat) \<le> of_nat (2 ^ 64)" by (simp only: of_nat_le_iff)
    then show ?thesis by simp
  qed
  then have "rounded (of_nat (a + b)) = Finite (fl (of_nat (a + b)))"
    by (intro rounded_small) simp_all
  then show ?thesis using assms fl_of_nat[of "a + b"] by (simp add: js_plus.simps)
qed

lemma js_plus_one: "k + 1 < 2 ^ 53 \<Longrightarrow> js_plus (Finite (of_nat k)) (Finite 1) = Finite (of_nat (k + 1))"
  using js_plus_nat[of k 1] by simp

lemma js_times_three: "k * 3 < 2 ^ 53 \<Longrightarrow> js_times (Finite (of_nat k)) (Finite 3) = Finite (of_nat (k * 3))"
  using js_times_nat[of k 3] by simp

lemma Buffer_alloc_number_nat: "Buffer_alloc_number (Finite (of_nat n)) = Buffer_alloc n"
  by (simp add: Buffer_alloc_number_def Buffer_alloc_def)

lemma writeUInt32BE_number_nat:
  "writeUInt32BE_number (Finite (of_nat n)) off buf = writeUInt32BE (int n) off buf"
proof -
  have "(4294967295 < (of_nat n :: rat)) = (4294967295 < int n)"
    using of_nat_less_iff[of 4294967295 n, where ?'a = rat] by simp
  then show ?thesis
    by (simp add: writeUInt32BE_number_def writeUInt32BE_def)
qed

lemma ihdrData_number_nat:
  "ihdrData_number (Finite (of_nat width)) (Finite (of_nat height)) = ihdrData width height"
  unfolding ihdrData_number_def ihdrData_def writeUInt32BE_number_nat ..

lemma read_number_nat: "read_number buf (Finite (of_nat k)) = read_byte buf k"
  by (simp add: read_number_def read_byte_def)

lemma pixelData_number_nat:
  assumes "width * height * 3 < 2 ^ 53"
  shows "pixelData_number (Finite (of_nat width)) (Finite (of_nat height)) r g b
           = pixelData width height r g b"
proof -
  have "width * height \<le> width * height * 3" by simp
  then have "width * height < 2 ^ 53" using assms by (rule le_less_trans)
  then have s1: "js_times (Finite (of_nat width)) (Finite (of_nat height))
               = Finite (of_nat (width * height))"
    by (rule js_times_nat)
  have s2: "js_times (Finite (of_nat (width * height))) (Finite 3)
               = Finite (of_nat (width * height * 3))"
    using assms by (rule js_times_three)
  show ?thesis
    unfolding pixelData_number_def pixelData_def s1 s2 Buffer_alloc_number_nat ..
qed

lemma row_loop_number_nat:
  assumes "y * w * 3 + w * 3 < 2 ^ 53"
  shows "x \<le> w * 3 \<Longrightarrow>
         row_loop_number (Finite (of_nat x)) (Finite (of_nat y)) (Finite (of_nat w)) pd st
           = Some (row_loop x y w pd st)"
proof (induction "w * 3 - x" arbitrary: x st)
  case 0
  obtain pos img where st: "st = (pos, img)" by (cases st)
  have w3: "js_times (Finite (of_nat w)) (Finite 3) = Finite (of_nat (w * 3))"
    using assms by (intro js_times_three) simp
  have nlt: "\<not> x < w * 3" using 0 by simp
  then have "\<not> (of_nat x :: rat) < of_nat w * 3"
    using of_nat_less_iff[of x "w * 3", where ?'a = rat] by simp
  then show ?case
    unfolding st using nlt
    by (subst row_loop_number.simps, subst row_loop.simps, unfold w3) simp
next
  case (Suc m)
  obtain pos img where st: "st = (pos, img)" by (cases st)
  from Suc have lt: "x < w * 3" and m: "m = w * 3 - Suc x" by simp_all
  have ltr: "(of_nat x :: rat) < of_nat w * 3"
    using of_nat_less_iff[of x "w * 3", where ?'a = rat] lt by simp
  have w3: "js_times (Finite (of_nat w)) (Finite 3) = Finite (of_nat (w * 3))"
    using assms by (intro js_times_three) simp
  have x1: "js_plus (Finite (of_nat x)) (Finite 1) = Finite (of_nat (Suc x))"
    using js_plus_one[of x] lt assms by simp
  have yw: "js_times (Finite (of_nat y)) (Finite (of_nat w)) = Finite (of_nat (y * w))"
  proof (rule js_times_nat)
    have "y * w \<le> y * w * 3 + w * 3" by simp
    then show "y * w < 2 ^ 53" using assms by (rule le_less_trans)
  qed
  have yw3: "js_times (Finite (of_nat (y * w))) (Finite 3) = Finite (of_nat (y * w * 3))"
    using assms by (intro js_times_three) simp
  have idx: "js_plus (Finite (of_nat (y * w * 3))) (Finite (of_nat x)) = Finite (of_nat (y * w * 3 + x))"
    using assms lt by (intro js_plus_nat) simp
  have "row_loop_number (Finite (of_nat x)) (Finite (of_nat y)) (Finite (of_nat w)) pd (pos, img)
          = row_loop_number (Finite (of_nat (Suc x))) (Finite (of_nat y)) (Finite (of_nat w)) pd
              (Suc pos, img[pos := read_byte pd (y * w * 3 + x)])"
    by (subst row_loop_number.simps, unfold w3 x1 yw yw3 idx read_number_nat) (simp add: ltr)
  also have "\<dots> = Some (row_loop (Suc x) y w pd (Suc pos, img[pos := read_byte pd (y * w * 3 + x)]))"
    using lt by (intro Suc.hyps(1)[OF m]) simp
  also have "row_loop (Suc x) y w pd (Suc pos, img[pos := read_byte pd (y * w * 3 + x)])
               = row_loop x y w pd (pos, img)"
    using lt by (subst (2) row_loop.simps) simp
  finally show ?case unfolding st .
qed

lemma scanline_loop_number_nat:
  assumes "h * w * 3 + w * 3 + h < 2 ^ 53"
  shows "y \<le> h \<Longrightarrow>
         scanline_loop_number (Finite (of_nat y)) (Finite (of_nat w)) (Finite (of_nat h)) pd st
           = Some (scanline_loop y w h pd st)"
proof (induction "h - y" arbitrary: y st)
  case 0
  obtain pos img where st: "st = (pos, img)" by (cases st)
  have nlt: "\<not> y < h" using 0 by simp
  show ?case
    unfolding st using nlt
    by (subst scanline_loop_number.simps, subst scanline_loop.simps) simp
next
  case (Suc m)
  obtain pos img where st: "st = (pos, img)" by (cases st)
  from Suc have lt: "y < h" and m: "m = h - Suc y" by simp_all
  have y1: "js_plus (Finite (of_nat y)) (Finite 1) = Finite (of_nat (Suc y))"
    using js_plus_one[of y] lt assms by simp
  have "y * w \<le> h * w" using lt by (intro mult_le_mono1) simp
  then have "y * w * 3 \<le> h * w * 3" by (rule mult_le_mono1)
  then have "y * w * 3 + w * 3 \<le> h * w * 3 + w * 3 + h" by linarith
  then have b: "y * w * 3 + w * 3 < 2 ^ 53" using assms by (rule le_less_trans)
  have row: "row_loop_number (Finite 0) (Finite (of_nat y)) (Finite (of_nat w)) pd (Suc pos, img[pos := 0])
               = Some (row_loop 0 y w pd (Suc pos, img[pos := 0]))"
    using row_loop_number_nat[OF b, of 0 pd "(Suc pos, img[pos := 0])"] by simp
  have "scanline_loop_number (Finite (of_nat y)) (Finite (of_nat w)) (Finite (of_nat h)) pd (pos, img)
          = scanline_loop_number (Finite (of_nat (Suc y))) (Finite (of_nat w)) (Finite (of_nat h)) pd
              (row_loop 0 y w pd (Suc pos, img[pos := 0]))"
    by (subst scanline_loop_number.simps, unfold y1) (simp add: lt row)
  also have "\<dots> = Some (scanline_loop (Suc y) w h pd (row_loop 0 y w pd (Suc pos, img[pos := 0])))"
    using lt by (intro Suc.hyps(1)[OF m]) simp
  also have "scanline_loop (Suc y) w h pd (row_loop 0 y w pd (Suc pos, img[pos := 0]))
               = scanline_loop y w h pd (pos, img)"
    using lt by (simp add: scanline_loop.simps[of y w h pd pos img])
  finally show ?case unfolding st .
qed

lemma length_pixel_loop: "length (pixel_loop i r g b pd) = length pd"
proof (induction "length pd - i" arbitrary: i pd rule: less_induct)
  case less
  show ?case
  proof (cases "i < length pd")
    case True
    then have "length pd - (i + 3) < length pd - i" by simp
    then have "length (pixel_loop (i + 3) r g b (pd[i := toUint8 r, i + 1 := toUint8 g, i + 2 := toUint8 b]))
                 = length pd"
      using less[of "pd[i := toUint8 r, i + 1 := toUint8 g, i + 2 := toUint8 b]" "i + 3"] by simp
    then show ?thesis using True by (subst pixel_loop.simps) simp
  next
    case False
    then show ?thesis by (subst pixel_loop.simps) simp
  qed
qed

lemma imageData_number_nat:
  assumes "h * w * 3 + w * 3 + h < 2 ^ 53"
  shows "imageData_number (Finite (of_nat w)) (Finite (of_nat h)) r g b = Some (imageData w h r g b)"
proof -
  have "w * h * 3 \<le> h * w * 3 + w * 3 + h" by (simp add: mult.commute)
  then have whb: "w * h * 3 < 2 ^ 53" using assms by (rule le_less_trans)
  note px = pixelData_number_nat[OF whb, of r g b]
  show ?thesis
  proof (cases "pixelData w h r g b")
    case (Inl e)
    then show ?thesis by (simp add: imageData_number_def imageData_def px)
  next
    case (Inr pd)
    then have "length pd = w * h * 3"
      by (auto simp: pixelData_def Buffer_alloc_def length_pixel_loop split: if_splits)
    then have "h + length pd \<le> h * w * 3 + w * 3 + h" by (simp add: mult.commute)
    then have "h + length pd < 2 ^ 53" using assms by (rule le_less_trans)
    then have s: "js_plus (Finite (of_nat h)) (Finite (of_nat (length pd))) = Finite (of_nat (h + length pd))"
      by (rule js_plus_nat)
    have z: "Finite 0 = Finite (of_nat 0)" by simp
    show ?thesis
    proof (cases "Buffer_alloc (h + length pd)")
      case (Inl e)
      then show ?thesis
        unfolding imageData_number_def imageData_def px \<open>pixelData w h r g b = Inr pd\<close> sum.case s
          Buffer_alloc_number_nat
        by simp
    next
      case (Inr img)
      have "scanline_loop_number (Finite (of_nat 0)) (Finite (of_nat w)) (Finite (of_nat h)) pd (0, img)
              = Some (scanline_loop 0 w h pd (0, img))"
        by (rule scanline_loop_number_nat[OF assms]) simp
      then show ?thesis
        unfolding imageData_number_def imageData_def px \<open>pixelData w h r g b = Inr pd\<close> sum.case s
          Buffer_alloc_number_nat Inr z
        by simp
    qed
  qed
qed

lemma generatePNG_number_nat:
  assumes "h * w * 3 + w * 3 + h < 2 ^ 53"
  shows "generatePNG_number (Finite (of_nat w)) (Finite (of_nat h)) color = Some (generatePNG w h color)"
  unfolding generatePNG_number_def generatePNG_def ihdrData_number_nat imageData_number_nat[OF assms]
  by (simp split: prod.splits sum.splits)

section \<open>Fractional arguments: generatePNG returns\<close>













section \<open>A fractional width, evaluated\<close>

















section \<open>The request handler and the dimensions\<close>

text \<open>
  The body of \<open>generatePNG\<close> compares neither \<open>width\<close> nor \<open>height\<close> with a bound, but
  the buffer primitives that it calls have limits of their own: a width of \<open>2 ^ 32\<close> makes
  \<open>writeUInt32BE\<close> throw while the header is built. Such values never come from the
  handler, whose validation stops at 4096.
\<close>

lemma generatePNG_number_width_2_32:
  "generatePNG_number (Finite 4294967296) height color = Some (Inl RangeError)"
proof -
  have "ihdrData_number (Finite 4294967296) height = Inl RangeError"
    by (simp add: ihdrData_number_def Buffer_alloc_13 writeUInt32BE_number_def)
  then show ?thesis
    by (simp add: generatePNG_number_def split: prod.splits)
qed

text \<open>
  C9, amended: the bound is checked by the request handler, before \<open>generatePNG\<close> is
  called and so before any byte is produced or written. Whenever \<open>width\<close> or \<open>height\<close> is
  not a number greater than 0 and at most 4096 (for integers: outside 1..4096; also \<open>NaN\<close>,
  an infinity, or a value that is not a number), whatever the other arguments and the file
  system are, \<open>handleGenerateImage\<close> throws an \<open>McpError\<close> with code \<open>InvalidParams\<close>.
\<close>

theorem handler_rejects_invalid_dimensions:
  assumes "\<not> (\<exists>q. get_prop args ''width'' = JNumber (Finite q) \<and> 0 < q \<and> q \<le> 4096) \<or>
           \<not> (\<exists>q. get_prop args ''height'' = JNumber (Finite q) \<and> 0 < q \<and> q \<le> 4096)"
  shows "handleGenerateImage writeFileSync args = Some (Inl InvalidParams)"
proof -
  have "greater_than v 0 \<and> at_most v 4096 \<longleftrightarrow> (\<exists>q. v = JNumber (Finite q) \<and> 0 < q \<and> q \<le> 4096)"
    for v
    by (cases "(v, 0 :: rat)" rule: greater_than.cases) auto
  then have "\<not> isValidGenerateImageArgs args"
    using assms unfolding isValidGenerateImageArgs_def by blast
  then show ?thesis by (simp add: handleGenerateImage_def)
qed

theorem handler_rejects_invalid_dimensions_witness:
  "handleGenerateImage (\<lambda>path data. True)
     (JObject [(''width'', JNumber (Finite 0)), (''height'', JNumber (Finite 16)),
               (''color'', JString ''#ff0000''), (''filepath'', JString ''out.png'')])
     = Some (Inl InvalidParams) \<and>
   handleGenerateImage (\<lambda>path data. True)
     (JObject [(''width'', JNumber (Finite 16)), (''height'', JNumber (Finite 4097)),
               (''color'', JString ''#ff0000''), (''filepath'', JString ''out.png'')])
     = Some (Inl InvalidParams) \<and>
   handleGenerateImage (\<lambda>path data. True)
     (JObject [(''width'', JNumber PosInfinity), (''height'', JNumber (Finite 16)),
               (''color'', JString ''#ff0000''), (''filepath'', JString ''out.png'')])
     = Some (Inl InvalidParams) \<and>
   handleGenerateImage (\<lambda>path data. True)
     (JObject [(''width'', JNumber (Finite 16)), (''height'', JNumber NaN),
               (''color'', JString ''#ff0000''), (''filepath'', JString ''out.png'')])
     = Some (Inl InvalidParams) \<and>
   handleGenerateImage (\<lambda>path data. True)
     (JObject [(''width'', JNumber (Finite 0)), (''height'', JString ''x''),
               (''color'', JString ''#ff0000''), (''filepath'', JString ''out.png'')])
     = Some (Inl InvalidParams)"
proof -
  note r = handler_rejects_invalid_dimensions
  show ?thesis
    by (intro conjI; rule r; simp)
qed



end
